theory Spec2Isabelle
  imports Complex_Main "HOL-Library.Word" "HOL-Library.Sublist"
begin

section \<open>JavaScript strings\<close>

text \<open>
  A JavaScript string is modelled as a \<^typ>\<open>string\<close>: a list of characters whose code
  is below 256.  The functions below are the built-in string operations that
  \<^verbatim>\<open>crypto.ts\<close> and the archive engine call.
\<close>

text \<open>\<^verbatim>\<open>s.startsWith(p)\<close>\<close>

definition startsWith :: "string \<Rightarrow> string \<Rightarrow> bool" where
  "startsWith s p = (take (length p) s = p)"

text \<open>\<^verbatim>\<open>s.includes(sub)\<close>\<close>

fun includesStr :: "string \<Rightarrow> string \<Rightarrow> bool" where
  "includesStr [] sub = (sub = [])"
| "includesStr (c # cs) sub = (startsWith (c # cs) sub \<or> includesStr cs sub)"

text \<open>
  \<^verbatim>\<open>s.split(sep)\<close> with a string separator and no limit: the pieces between the
  successive, non-overlapping occurrences of \<open>sep\<close>, found from the left.  With the empty
  separator the string is split into its characters.
\<close>

function splitStr :: "string \<Rightarrow> string \<Rightarrow> string list" where
  "splitStr sep s =
     (if sep = [] then map (\<lambda>c. [c]) s
      else if s = [] then [[]]
      else if startsWith s sep then [] # splitStr sep (drop (length sep) s)
      else (case splitStr sep (tl s) of
              [] \<Rightarrow> [[hd s]]
            | p # ps \<Rightarrow> (hd s # p) # ps))"
  by pat_completeness auto
termination
  by (relation "measure (\<lambda>(sep, s). length s)") auto

declare splitStr.simps [simp del]

section \<open>Numbers in credential strings\<close>

text \<open>
  The iteration count is written into the credential by a template literal and read back
  by \<^verbatim>\<open>parseInt\<close>.  Numbers are modelled as integers, \<^verbatim>\<open>NaN\<close> as \<open>None\<close>.
\<close>

definition digitChar :: "nat \<Rightarrow> char" where
  "digitChar d = ''0123456789abcdef'' ! d"

text \<open>The decimal digits of a natural number, as \<^verbatim>\<open>Number.prototype.toString\<close> prints them.\<close>

fun natToString :: "nat \<Rightarrow> string" where
  "natToString n = (if n < 10 then [digitChar n] else natToString (n div 10) @ [digitChar (n mod 10)])"

declare natToString.simps [simp del]

definition numToString :: "int \<Rightarrow> string" where
  "numToString n = (if n < 0 then CHR ''-'' # natToString (nat (- n)) else natToString (nat n))"

text \<open>The white space that \<^verbatim>\<open>parseInt\<close> skips (tab, line feed, vertical tab, form feed,
  carriage return, space, no-break space).\<close>

definition isWhiteSpace :: "char \<Rightarrow> bool" where
  "isWhiteSpace c = (of_char c \<in> {9, 10, 11, 12, 13, 32, 160 :: nat})"

text \<open>The value of a character as a digit of the given radix, if it is one.\<close>

definition digitValue :: "nat \<Rightarrow> char \<Rightarrow> nat option" where
  "digitValue radix c =
     (let k = (of_char c :: nat);
          v = (if 48 \<le> k \<and> k \<le> 57 then Some (k - 48)
               else if 97 \<le> k \<and> k \<le> 122 then Some (k - 87)
               else if 65 \<le> k \<and> k \<le> 90 then Some (k - 55)
               else None)
      in case v of None \<Rightarrow> None | Some d \<Rightarrow> if d < radix then Some d else None)"

text \<open>The longest prefix of digits, read from the left; \<open>None\<close> when it is empty.\<close>

fun readDigits :: "nat \<Rightarrow> nat option \<Rightarrow> string \<Rightarrow> nat option" where
  "readDigits radix acc [] = acc"
| "readDigits radix acc (c # cs) =
     (case digitValue radix c of
        None \<Rightarrow> acc
      | Some d \<Rightarrow> readDigits radix (Some ((case acc of None \<Rightarrow> 0 | Some a \<Rightarrow> a) * radix + d)) cs)"

text \<open>
  \<^verbatim>\<open>parseInt(s)\<close> without a radix: leading white space is skipped, a sign is read, a
  prefix \<^verbatim>\<open>0x\<close> or \<^verbatim>\<open>0X\<close> selects radix 16, and the longest prefix of digits is the
  value; characters after it are ignored.
\<close>

definition parseInt :: "string \<Rightarrow> int option" where
  "parseInt s =
     (let t = dropWhile isWhiteSpace s;
          neg = (t \<noteq> [] \<and> hd t = CHR ''-'');
          u = (if t \<noteq> [] \<and> (hd t = CHR ''-'' \<or> hd t = CHR ''+'') then tl t else t);
          hex = (startsWith u ''0x'' \<or> startsWith u ''0X'');
          r = (if hex then readDigits 16 None (drop 2 u) else readDigits 10 None u)
      in case r of None \<Rightarrow> None
         | Some v \<Rightarrow> Some (if neg then - int v else int v))"

section \<open>CredentialCodec: \<^verbatim>\<open>crypto.ts\<close>\<close>

type_synonym byte = "8 word"

text \<open>\<^verbatim>\<open>buffer.toString('hex')\<close>: two lower-case hexadecimal digits for every byte.\<close>

definition toHex :: "byte list \<Rightarrow> string" where
  "toHex bs = concat (map (\<lambda>b. [digitChar (unat b div 16), digitChar (unat b mod 16)]) bs)"

datatype js_error = RangeError

text \<open>
  The key stream of PBKDF2 with HMAC-SHA-512 is a parameter \<open>kdf\<close> of the model:
  \<open>kdf password salt iterations i\<close> is byte \<open>i\<close> of the derived key.
  \<^verbatim>\<open>crypto.pbkdf2Sync(password, salt, iterations, keylen, 'sha512')\<close> returns the first
  \<open>keylen\<close> bytes of it, and throws when \<open>iterations\<close> is not an integer between 1 and
  \<open>2^31 - 1\<close>.
\<close>

type_synonym kdf = "string \<Rightarrow> string \<Rightarrow> int \<Rightarrow> nat \<Rightarrow> byte"

definition pbkdf2Sync :: "kdf \<Rightarrow> string \<Rightarrow> string \<Rightarrow> int option \<Rightarrow> nat \<Rightarrow> js_error + byte list" where
  "pbkdf2Sync kdf password salt iterations keylen =
     (case iterations of
        None \<Rightarrow> Inl RangeError
      | Some n \<Rightarrow>
          if 1 \<le> n \<and> n \<le> 2147483647 then Inr (map (kdf password salt n) [0..<keylen])
          else Inl RangeError)"

definition algorithmTag :: string where
  "algorithmTag = ''pbkdf2_sha512''"

text \<open>
  \<^verbatim>\<open>generatePasswordHash(password, salt?, iterations = 100000)\<close>.  The optional salt is
  an \<open>option\<close>; a missing or empty salt is replaced by the hexadecimal form of
  \<^verbatim>\<open>crypto.randomBytes(32)\<close>, whose result is the parameter \<open>rnd\<close>.  The exception of
  \<^verbatim>\<open>pbkdf2Sync\<close> is not caught.
\<close>

definition saltToUse :: "byte list \<Rightarrow> string option \<Rightarrow> string" where
  "saltToUse rnd salt = (case salt of None \<Rightarrow> toHex rnd | Some s \<Rightarrow> if s = [] then toHex rnd else s)"

definition generatePasswordHash ::
    "kdf \<Rightarrow> byte list \<Rightarrow> string \<Rightarrow> string option \<Rightarrow> int \<Rightarrow> js_error + string" where
  "generatePasswordHash kdf rnd password salt iterations =
     (case pbkdf2Sync kdf password (saltToUse rnd salt) (Some iterations) 64 of
        Inl e \<Rightarrow> Inl e
      | Inr hash \<Rightarrow>
          Inr (algorithmTag @ ''$'' @ numToString iterations @ ''$'' @ saltToUse rnd salt @ ''$'' @ toHex hash))"

text \<open>The body of the \<^verbatim>\<open>try\<close> block of \<^verbatim>\<open>verifyPassword\<close>.\<close>

definition verifyPasswordBody :: "kdf \<Rightarrow> string \<Rightarrow> string \<Rightarrow> js_error + bool" where
  "verifyPasswordBody kdf password hash =
     (let parts = splitStr ''$'' hash in
      if length parts \<noteq> 4 \<or> parts ! 0 \<noteq> algorithmTag then Inr False
      else
        let iterations = parseInt (if parts ! 1 = [] then ''100000'' else parts ! 1);
            salt = parts ! 2;
            originalHash = parts ! 3
        in case pbkdf2Sync kdf password salt iterations 64 of
             Inl e \<Rightarrow> Inl e
           | Inr hashToVerify \<Rightarrow> Inr (originalHash = toHex hashToVerify))"

text \<open>\<^verbatim>\<open>verifyPassword(password, hash)\<close>: the \<^verbatim>\<open>catch\<close> clause turns every exception into \<open>false\<close>.\<close>

definition verifyPassword :: "kdf \<Rightarrow> string \<Rightarrow> string \<Rightarrow> bool" where
  "verifyPassword kdf password hash =
     (case verifyPasswordBody kdf password hash of Inl e \<Rightarrow> False | Inr b \<Rightarrow> b)"

text \<open>The hexadecimal digest that both functions derive: 64 bytes of key, printed in hex.\<close>

definition derivedDigest :: "kdf \<Rightarrow> string \<Rightarrow> string \<Rightarrow> int \<Rightarrow> string" where
  "derivedDigest kdf password salt n = toHex (map (kdf password salt n) [0..<64])"

text \<open>\<^verbatim>\<open>parts.join(sep)\<close>\<close>

fun joinStr :: "string \<Rightarrow> string list \<Rightarrow> string" where
  "joinStr sep [] = []"
| "joinStr sep [p] = p"
| "joinStr sep (p # q # ps) = p @ sep @ joinStr sep (q # ps)"

subsection \<open>The cost of the digest comparison\<close>

text \<open>
  \<^verbatim>\<open>verifyPassword\<close> compares the two digests with \<^verbatim>\<open>===\<close>.  On strings this
  operator is a comparison from the left that stops at the first pair of code units that
  differ; \<open>strictEqualsSteps\<close> counts the pairs it inspects.  (The sibling
  \<^verbatim>\<open>verifyHMAC\<close> calls \<^verbatim>\<open>crypto.timingSafeEqual\<close>, which inspects every pair.)
  \<open>verifyPasswordSteps\<close> is \<^verbatim>\<open>verifyPassword\<close> with the boolean of the comparison
  replaced by this count; it is 0 when the comparison is not reached.
\<close>

fun strictEqualsSteps :: "string \<Rightarrow> string \<Rightarrow> nat" where
  "strictEqualsSteps (x # xs) (y # ys) = (if x = y then Suc (strictEqualsSteps xs ys) else 1)"
| "strictEqualsSteps xs ys = 0"

definition verifyPasswordSteps :: "kdf \<Rightarrow> string \<Rightarrow> string \<Rightarrow> nat" where
  "verifyPasswordSteps kdf password hash =
     (let parts = splitStr ''$'' hash in
      if length parts \<noteq> 4 \<or> parts ! 0 \<noteq> algorithmTag then 0
      else
        let iterations = parseInt (if parts ! 1 = [] then ''100000'' else parts ! 1);
            salt = parts ! 2;
            originalHash = parts ! 3
        in case pbkdf2Sync kdf password salt iterations 64 of
             Inl e \<Rightarrow> 0
           | Inr hashToVerify \<Rightarrow> strictEqualsSteps originalHash (toHex hashToVerify))"

section \<open>Paths\<close>

text \<open>
  The archive engine manipulates paths with the POSIX variant of Node's \<^verbatim>\<open>path\<close> module.
  Its functions are transcribed here on strings.  \<^verbatim>\<open>normalizeString\<close> is Node's internal
  helper of that name: it drops empty and \<open>.\<close> segments and resolves \<open>..\<close> against the
  segment before it; above the start of the path \<open>..\<close> is kept only when
  \<open>allowAboveRoot\<close> holds.
\<close>

fun normalizeSegments :: "bool \<Rightarrow> string list \<Rightarrow> string list \<Rightarrow> string list" where
  "normalizeSegments allowAboveRoot res [] = res"
| "normalizeSegments allowAboveRoot res (seg # segs) =
     (if seg = [] \<or> seg = ''.'' then normalizeSegments allowAboveRoot res segs
      else if seg = ''..'' then
        (if res \<noteq> [] \<and> last res \<noteq> ''..'' then normalizeSegments allowAboveRoot (butlast res) segs
         else if allowAboveRoot then normalizeSegments allowAboveRoot (res @ [''..'']) segs
         else normalizeSegments allowAboveRoot res segs)
      else normalizeSegments allowAboveRoot (res @ [seg]) segs)"

text \<open>
  The segments are joined again with single separators; the result has neither a leading
  nor a trailing separator.
\<close>

definition normalizeString :: "string \<Rightarrow> bool \<Rightarrow> string" where
  "normalizeString path allowAboveRoot =
     joinStr ''/'' (normalizeSegments allowAboveRoot [] (splitStr ''/'' path))"

definition isAbsolute :: "string \<Rightarrow> bool" where
  "isAbsolute p = (p \<noteq> [] \<and> hd p = CHR ''/'')"

text \<open>
  \<^verbatim>\<open>path.resolve(p)\<close> with one argument; \<open>cwd\<close> is the value of \<^verbatim>\<open>process.cwd()\<close>.
  The argument is taken first and the working directory is put in front of it unless the
  argument is absolute.  The result has no trailing separator, except for the root.
\<close>

definition resolve :: "string \<Rightarrow> string \<Rightarrow> string" where
  "resolve cwd p =
     (let resolvedPath = (if p = [] then [] else p @ ''/'');
          resolvedAbsolute = isAbsolute p;
          resolvedPath = (if resolvedAbsolute \<or> cwd = [] then resolvedPath else cwd @ ''/'' @ resolvedPath);
          resolvedAbsolute = (if resolvedAbsolute \<or> cwd = [] then resolvedAbsolute else isAbsolute cwd);
          resolvedPath = normalizeString resolvedPath (\<not> resolvedAbsolute)
      in if resolvedAbsolute then ''/'' @ resolvedPath
         else if resolvedPath \<noteq> [] then resolvedPath else ''.'')"

text \<open>
  \<^verbatim>\<open>path.normalize(p)\<close>, which unlike \<^verbatim>\<open>resolve\<close> keeps a path relative and keeps a
  trailing separator.
\<close>

definition normalizePath :: "string \<Rightarrow> string" where
  "normalizePath p =
     (if p = [] then ''.''
      else
        let isAbs = (hd p = CHR ''/'');
            trailingSeparator = (last p = CHR ''/'');
            path = normalizeString p (\<not> isAbs)
        in if path = [] then (if isAbs then ''/'' else if trailingSeparator then ''./'' else ''.'')
           else (if isAbs then ''/'' else []) @ path @ (if trailingSeparator then ''/'' else []))"

text \<open>
  \<^verbatim>\<open>path.join(a, b)\<close>: the non-empty arguments joined by a separator, then normalized.
  An absolute second argument is not treated specially: it ends up below the first.
\<close>

definition join :: "string \<Rightarrow> string \<Rightarrow> string" where
  "join a b =
     (let joined = (if a = [] then b else if b = [] then a else a @ ''/'' @ b)
      in if joined = [] then ''.'' else normalizePath joined)"

text \<open>
  \<^verbatim>\<open>path.dirname(p)\<close>.  Node scans the characters from the last one down to the second
  for the first separator that follows a character which is not one; \<open>dirnameScan\<close> is
  that loop on the reversed tail of the path and returns the index \<open>end\<close> at which it
  stops.
\<close>

fun dirnameScan :: "string \<Rightarrow> bool \<Rightarrow> nat option" where
  "dirnameScan [] matchedSlash = None"
| "dirnameScan (c # cs) matchedSlash =
     (if c = CHR ''/'' then (if \<not> matchedSlash then Some (Suc (length cs)) else dirnameScan cs matchedSlash)
      else dirnameScan cs False)"

definition dirname :: "string \<Rightarrow> string" where
  "dirname p =
     (if p = [] then ''.''
      else
        let hasRoot = (hd p = CHR ''/'') in
        case dirnameScan (rev (tl p)) True of
          None \<Rightarrow> if hasRoot then ''/'' else ''.''
        | Some e \<Rightarrow> if hasRoot \<and> e = 1 then ''//'' else take e p)"

section \<open>The path check of the extraction\<close>

text \<open>
  \<^verbatim>\<open>SimplZip.isPathSafe(targetPath, allowedRoot)\<close>.  The \<^verbatim>\<open>try\<close> of the source has
  nothing to catch here: \<^verbatim>\<open>path.resolve\<close> throws only for an argument that is not a
  string.
\<close>

definition isPathSafe :: "string \<Rightarrow> string \<Rightarrow> string \<Rightarrow> bool" where
  "isPathSafe cwd targetPath allowedRoot =
     (let resolvedTarget = resolve cwd targetPath;
          resolvedRoot = resolve cwd allowedRoot
      in startsWith resolvedTarget (resolvedRoot @ ''/'') \<or> resolvedTarget = resolvedRoot)"

text \<open>
  An absolute path written as the list of its segments, and back.  The directories that
  a recursive \<^verbatim>\<open>mkdir\<close> of \<open>p\<close> looks at are those of \<open>ancestorsOrSelf p\<close>: the root of
  the file system, every directory on the way, and \<open>p\<close> itself.
\<close>

definition pathOf :: "string list \<Rightarrow> string" where
  "pathOf segs = ''/'' @ joinStr ''/'' segs"

definition components :: "string \<Rightarrow> string list" where
  "components p = normalizeSegments False [] (splitStr ''/'' p)"

definition ancestorsOrSelf :: "string \<Rightarrow> string list" where
  "ancestorsOrSelf p = map pathOf (prefixes (components p))"

section \<open>The file system\<close>

text \<open>
  The part of the file system that extraction touches: the directories that exist, and
  the regular files with their contents, both addressed by resolved absolute paths.  A write
  puts a new binding in front, so \<open>map_of (files fs)\<close> reads the current contents.
\<close>

record filesystem =
  dirs :: "string list"
  files :: "(string \<times> string) list"

datatype fs_error = EEXIST | EISDIR | ENOENT

definition isFile :: "filesystem \<Rightarrow> string \<Rightarrow> bool" where
  "isFile fs p = (map_of (files fs) p \<noteq> None)"

definition isDirectory :: "filesystem \<Rightarrow> string \<Rightarrow> bool" where
  "isDirectory fs p = (p \<in> set (dirs fs))"

text \<open>
  \<^verbatim>\<open>fs.mkdirSync(p, { recursive: true })\<close>: creates \<open>p\<close> and every ancestor of it
  that is missing, and accepts directories that exist already.  It throws when a regular
  file is in the way; Node distinguishes \<^verbatim>\<open>EEXIST\<close> from \<^verbatim>\<open>ENOTDIR\<close> there, the model
  reports both as \<open>EEXIST\<close>.
\<close>

definition mkdirSync :: "string \<Rightarrow> string \<Rightarrow> filesystem \<Rightarrow> fs_error + filesystem" where
  "mkdirSync cwd p fs =
     (let ds = ancestorsOrSelf (resolve cwd p) in
      if list_ex (isFile fs) ds then Inl EEXIST
      else Inr (fs\<lparr>dirs := dirs fs @ filter (\<lambda>d. \<not> isDirectory fs d) ds\<rparr>))"

text \<open>
  \<^verbatim>\<open>fs.createWriteStream(p)\<close> with the piped content written and the stream closed:
  the file is created or truncated and holds the content.  The stream emits an error when
  the path is a directory or when its parent directory does not exist.
\<close>

definition createWriteStream :: "string \<Rightarrow> string \<Rightarrow> string \<Rightarrow> filesystem \<Rightarrow> fs_error + filesystem" where
  "createWriteStream cwd p content fs =
     (let t = resolve cwd p in
      if isDirectory fs t then Inl EISDIR
      else if \<not> isDirectory fs (resolve cwd (dirname t)) then Inl ENOENT
      else Inr (fs\<lparr>files := (t, content) # files fs\<rparr>))"

section \<open>Reading an archive\<close>

text \<open>
  The archive library (\<^verbatim>\<open>yauzl\<close>) is represented by what it delivers to the handlers of
  \<^verbatim>\<open>unzip\<close>: the comment of the archive, and, one per call of \<^verbatim>\<open>readEntry\<close>, either an
  entry or an error event; the end of the list is the \<^verbatim>\<open>end\<close> event.  An entry has a name
  and the result of \<^verbatim>\<open>openReadStream\<close>: the decompressed bytes, or \<open>None\<close> when the
  stream cannot be opened.  The library may refuse some entry names itself; such an entry
  is an error event.
\<close>

record entry =
  fileName :: string
  readStream :: "string option"

datatype zip_event = Entry entry | ZipError

record zipfile =
  comment :: string
  events :: "zip_event list"

text \<open>
  What is found at the path of the archive: nothing, a file that \<^verbatim>\<open>yauzl.open\<close> rejects,
  or an archive.
\<close>

datatype archive = Missing | Unreadable | Archive zipfile

text \<open>
  The lines written by \<^verbatim>\<open>Logger.info\<close> and \<^verbatim>\<open>Logger.warn\<close> (with its code), in order.
\<close>

datatype log_line = Info string | Warn nat string

text \<open>
  The ways in which \<^verbatim>\<open>unzip\<close> fails.  All but the last reject the promise.  An exception
  thrown by \<^verbatim>\<open>mkdirSync\<close> inside the \<^verbatim>\<open>entry\<close> handler is not caught by the promise;
  it is \<open>UncaughtException\<close>.
\<close>

datatype unzip_error =
    ZipFileDoesNotExist
  | PasswordRequired
  | OpenFailed
  | IncorrectPassword
  | ZipfileError
  | ReadStreamFailed
  | WriteStreamFailed fs_error
  | UncaughtException fs_error

record world =
  fs :: filesystem
  logged :: "log_line list"

text \<open>
The test that the name of an entry ends with a separator.
\<close>

definition endsWithSlash :: "string \<Rightarrow> bool" where
  "endsWithSlash s = (s \<noteq> [] \<and> last s = CHR ''/'')"

definition warn :: "nat \<Rightarrow> string \<Rightarrow> world \<Rightarrow> world" where
  "warn code msg w = w\<lparr>logged := logged w @ [Warn code msg]\<rparr>"

definition info :: "string \<Rightarrow> world \<Rightarrow> world" where
  "info msg w = w\<lparr>logged := logged w @ [Info msg]\<rparr>"

text \<open>
  The \<^verbatim>\<open>entry\<close>, \<^verbatim>\<open>end\<close> and \<^verbatim>\<open>error\<close> handlers of \<^verbatim>\<open>unzip\<close>, run over the events of
  the archive.  An entry whose path is not safe is reported and skipped, and the next entry is
  read.  The name of a directory entry ends with a separator.  The result is the error that
  stopped the extraction, if any, and the state reached.
\<close>

fun readEntries :: "string \<Rightarrow> string \<Rightarrow> zip_event list \<Rightarrow> world \<Rightarrow> unzip_error option \<times> world" where
  "readEntries cwd extractTo [] w = (None, w)"
| "readEntries cwd extractTo (ZipError # rest) w = (Some ZipfileError, w)"
| "readEntries cwd extractTo (Entry e # rest) w =
     (let entryPath = join extractTo (fileName e) in
      if \<not> isPathSafe cwd entryPath extractTo then
        readEntries cwd extractTo rest (warn 103 (''Skipping unsafe path: '' @ fileName e) w)
      else if endsWithSlash (fileName e) then
        (case mkdirSync cwd entryPath (fs w) of
           Inl err \<Rightarrow> (Some (UncaughtException err), w)
         | Inr fs1 \<Rightarrow> readEntries cwd extractTo rest (w\<lparr>fs := fs1\<rparr>))
      else
        (case mkdirSync cwd (dirname entryPath) (fs w) of
           Inl err \<Rightarrow> (Some (UncaughtException err), w)
         | Inr fs1 \<Rightarrow>
             (case readStream e of
                None \<Rightarrow> (Some ReadStreamFailed, w\<lparr>fs := fs1\<rparr>)
              | Some content \<Rightarrow>
                  (case createWriteStream cwd entryPath content fs1 of
                     Inl err \<Rightarrow> (Some (WriteStreamFailed err), w\<lparr>fs := fs1\<rparr>)
                   | Inr fs2 \<Rightarrow> readEntries cwd extractTo rest (w\<lparr>fs := fs2\<rparr>)))))"

section \<open>Password protection\<close>

text \<open>
  A protected archive carries the marker followed by the credential string in its comment.
\<close>

definition passwordMarker :: string where
  "passwordMarker = ''SZIP_PASSWORD_PROTECTED:''"

definition checkPasswordProtection :: "archive \<Rightarrow> bool" where
  "checkPasswordProtection a =
     (case a of Archive z \<Rightarrow> includesStr (comment z) passwordMarker | _ \<Rightarrow> False)"

text \<open>
The truth value of an optional string in a condition: absent and empty are false.
\<close>

definition truthy :: "string option \<Rightarrow> bool" where
  "truthy s = (case s of None \<Rightarrow> False | Some x \<Rightarrow> x \<noteq> [])"

record UnzipResult =
  directory :: string

text \<open>
  The verification block at the start of the callback of \<^verbatim>\<open>yauzl.open\<close>.  It is entered
  only with a non-empty password and a non-empty comment, and it verifies only when the
  comment splits at the marker into exactly two parts the second of which is not empty.
\<close>

definition verifyArchivePassword :: "kdf \<Rightarrow> string option \<Rightarrow> string \<Rightarrow> world \<Rightarrow> unzip_error + world" where
  "verifyArchivePassword kdf password zcomment w =
     (case password of
        None \<Rightarrow> Inr w
      | Some pw \<Rightarrow>
          if pw \<noteq> [] \<and> zcomment \<noteq> [] then
            (let commentParts = splitStr passwordMarker zcomment in
             if length commentParts = 2 then
               (let storedHash = commentParts ! 1 in
                if storedHash \<noteq> [] \<and> \<not> verifyPassword kdf pw storedHash then Inl IncorrectPassword
                else Inr (info ''Password verified'' w))
             else Inr w)
          else Inr w)"

text \<open>
  The directory into which \<^verbatim>\<open>unzip\<close> extracts: the resolved output path or, without one,
  the directory of the archive.
\<close>

definition extractTarget :: "string \<Rightarrow> string \<Rightarrow> string option \<Rightarrow> string" where
  "extractTarget cwd zipPath outputPath =
     (case outputPath of
        None \<Rightarrow> dirname (resolve cwd zipPath)
      | Some out \<Rightarrow> if out \<noteq> [] then resolve cwd out else dirname (resolve cwd zipPath))"

text \<open>
  \<^verbatim>\<open>SimplZip.unzip(zipPath, outputPath, password)\<close>, from a state of the file system and
  the log to the result of the promise and the state reached.
\<close>

definition unzip ::
    "kdf \<Rightarrow> string \<Rightarrow> archive \<Rightarrow> string \<Rightarrow> string option \<Rightarrow> string option \<Rightarrow> world
     \<Rightarrow> (unzip_error + UnzipResult) \<times> world" where
  "unzip kdf cwd a zipPath outputPath password w =
     (let extractTo = extractTarget cwd zipPath outputPath
      in if a = Missing then (Inl ZipFileDoesNotExist, w)
         else if checkPasswordProtection a \<and> \<not> truthy password then (Inl PasswordRequired, w)
         else
           (case a of
              Archive z \<Rightarrow>
                (case verifyArchivePassword kdf password (comment z) w of
                   Inl err \<Rightarrow> (Inl err, w)
                 | Inr w1 \<Rightarrow>
                     (case readEntries cwd extractTo (events z) w1 of
                        (Some err, w2) \<Rightarrow> (Inl err, w2)
                      | (None, w2) \<Rightarrow> (Inr \<lparr>directory = extractTo\<rparr>, w2)))
            | _ \<Rightarrow> (Inl OpenFailed, w)))"

section \<open>Vocabulary of the containment proof\<close>

text \<open>
A path that is the root or lies below it.
\<close>

definition withinRoot :: "string \<Rightarrow> string \<Rightarrow> bool" where
  "withinRoot resolvedRoot p = (p = resolvedRoot \<or> startsWith p (resolvedRoot @ ''/''))"

text \<open>
Segments as a resolved path has them: not empty, not \<open>.\<close> or \<open>..\<close>, without a separator.
\<close>

definition cleanSegs :: "string list \<Rightarrow> bool" where
  "cleanSegs segs = (\<forall>s \<in> set segs. s \<noteq> [] \<and> s \<noteq> ''.'' \<and> s \<noteq> ''..'' \<and> CHR ''/'' \<notin> set s)"



section \<open>Creating an archive\<close>

text \<open>
  JavaScript numbers are modelled as real numbers, so the rounding of the floating-point
  operations themselves is not represented.  \<^verbatim>\<open>Math.round(x)\<close> is the integer nearest to
  \<open>x\<close>, the larger one at a tie.
\<close>

definition mathRound :: "real \<Rightarrow> int" where
  "mathRound x = \<lfloor>x + 1 / 2\<rfloor>"

text \<open>
\<^verbatim>\<open>path.basename(p)\<close>: the last segment, trailing separators ignored.
\<close>

definition basename :: "string \<Rightarrow> string" where
  "basename p = rev (takeWhile (\<lambda>c. c \<noteq> CHR ''/'') (dropWhile (\<lambda>c. c = CHR ''/'') (rev p)))"

text \<open>
  What is found at the source path: a regular file with its contents, or a directory with
  its items in the order of \<^verbatim>\<open>readdirSync\<close>.
\<close>

datatype node = File string | Directory "(string \<times> node) list"

text \<open>
  \<^verbatim>\<open>calculateDirectorySize\<close>: the sum of the sizes of the regular files.  The \<^verbatim>\<open>catch\<close>
  of the source, which logs a warning and returns the sum reached, is not represented: the
  tree is the one that was read.
\<close>

fun traverse :: "node \<Rightarrow> nat \<Rightarrow> nat" where
  "traverse (File content) totalSize = totalSize + length content"
| "traverse (Directory items) totalSize = fold (\<lambda>item. traverse (snd item)) items totalSize"

definition calculateDirectorySize :: "node \<Rightarrow> nat" where
  "calculateDirectorySize source = traverse source 0"

text \<open>
  The entries that \<^verbatim>\<open>archive.directory(source, basename)\<close> appends for the items of a
  directory: a file under its relative path, a directory under its path followed by a
  separator, then its items.  The archiving library (\<^verbatim>\<open>archiver\<close>) is represented by
  these entries and by a function \<open>encode\<close> that gives the bytes of the container.
\<close>

fun entriesOf :: "string \<Rightarrow> node \<Rightarrow> entry list" where
  "entriesOf name (File content) = [\<lparr>fileName = name, readStream = Some content\<rparr>]"
| "entriesOf name (Directory items) =
     \<lparr>fileName = name @ ''/'', readStream = None\<rparr>
     # concat (map (\<lambda>item. entriesOf (name @ ''/'' @ fst item) (snd item)) items)"

definition archiveDirectory :: "(string \<times> node) list \<Rightarrow> string \<Rightarrow> entry list" where
  "archiveDirectory items destpath =
     concat (map (\<lambda>item. entriesOf (destpath @ ''/'' @ fst item) (snd item)) items)"

section \<open>Hashing a file\<close>

text \<open>
  The \<^verbatim>\<open>data\<close> events of a read stream with the given \<^verbatim>\<open>highWaterMark\<close>: the content
  in pieces of that many bytes, the last one possibly shorter.
\<close>

function chunksOf :: "nat \<Rightarrow> string \<Rightarrow> string list" where
  "chunksOf n content = (if n = 0 \<or> content = [] then [] else take n content # chunksOf n (drop n content))"
  by pat_completeness auto
termination
  by (relation "measure (\<lambda>(n, content). length content)") auto

declare chunksOf.simps [simp del]

definition highWaterMark :: nat where
  "highWaterMark = 64 * 1024"

text \<open>
  The result of \<^verbatim>\<open>generateFileHash\<close>.  The hash function is a parameter: \<open>createHash\<close>
  fails for an algorithm it does not know, \<open>update\<close> feeds a chunk, \<open>digest\<close> gives
  the bytes.  \<open>elapsed\<close> is the time that \<^verbatim>\<open>Date.now\<close> measures.
\<close>

record HashResult =
  algorithm :: string
  hash :: string
  fileSize :: nat
  fileName' :: string
  computeTime :: nat

datatype hash_error = UnsupportedAlgorithm | FileNotFound

text \<open>
  The variables of the closure of \<^verbatim>\<open>generateFileHash\<close>, together with the values passed
  to the progress callback so far.
\<close>

record 'h hashing =
  hasher :: 'h
  processedBytes :: nat
  fileSizeSoFar :: nat
  reported :: "int list"

text \<open>
The handler of \<^verbatim>\<open>data\<close>; \<open>progressCallback\<close> tells whether a callback was given.
\<close>

definition onData :: "('h \<Rightarrow> string \<Rightarrow> 'h) \<Rightarrow> bool \<Rightarrow> nat \<Rightarrow> string \<Rightarrow> 'h hashing \<Rightarrow> 'h hashing" where
  "onData update progressCallback totalSize chunk st =
     (let processed = processedBytes st + length chunk in
      \<lparr>hasher = update (hasher st) chunk,
       processedBytes = processed,
       fileSizeSoFar = fileSizeSoFar st + length chunk,
       reported = (if progressCallback \<and> totalSize > 0
                   then reported st @ [mathRound ((real processed / real totalSize) * 100)]
                   else reported st)\<rparr>)"

text \<open>
  \<^verbatim>\<open>CryptoUtils.generateFileHash(filePath, algorithm, progressCallback)\<close> on a file with
  the given content (\<open>None\<close>: no such file).  \<^verbatim>\<open>statSync\<close> and the stream read the same
  content.  The result is paired with the values reported to the callback.
\<close>

definition generateFileHash ::
    "(string \<Rightarrow> 'h option) \<Rightarrow> ('h \<Rightarrow> string \<Rightarrow> 'h) \<Rightarrow> ('h \<Rightarrow> byte list) \<Rightarrow> nat
     \<Rightarrow> string option \<Rightarrow> string \<Rightarrow> string \<Rightarrow> bool \<Rightarrow> hash_error + HashResult \<times> int list" where
  "generateFileHash createHash update digest elapsed file filePath alg progressCallback =
     (case createHash alg of
        None \<Rightarrow> Inl UnsupportedAlgorithm
      | Some h0 \<Rightarrow>
          (case file of
             None \<Rightarrow> Inl FileNotFound
           | Some content \<Rightarrow>
               (let totalSize = length content;
                    st = fold (onData update progressCallback totalSize) (chunksOf highWaterMark content)
                           \<lparr>hasher = h0, processedBytes = 0, fileSizeSoFar = 0, reported = []\<rparr>
                in Inr (\<lparr>algorithm = alg,
                         hash = toHex (digest (hasher st)),
                         fileSize = fileSizeSoFar st,
                         fileName' = basename filePath,
                         computeTime = elapsed\<rparr>,
                        reported st))))"

section \<open>The result of zip\<close>

record ZipResult =
  outputPath :: string
  size' :: nat
  directory' :: string
  hash' :: "string option"
  hashAlgorithm :: "string option"
  compressionRatio :: real
  fileCount :: nat

datatype zip_error = SourceDoesNotExist | PasswordHashError js_error | HashError hash_error

text \<open>
  The comment given to the archive: the marker and the credential of the password, when a
  non-empty password is given.
\<close>

definition archiveComment :: "kdf \<Rightarrow> byte list \<Rightarrow> string option \<Rightarrow> js_error + string" where
  "archiveComment kdf rnd optPassword =
     (case optPassword of
        None \<Rightarrow> Inr []
      | Some pw \<Rightarrow>
          if pw = [] then Inr []
          else (case generatePasswordHash kdf rnd pw None 100000 of
                  Inl err \<Rightarrow> Inl err
                | Inr passwordHash \<Rightarrow> Inr (passwordMarker @ passwordHash)))"

text \<open>
  \<^verbatim>\<open>SimplZip.zip(sourcePath, outputPath, options)\<close>, with the three options as arguments.
  \<open>sourceNode\<close> is what is found at the source path.  The result is paired with the
  archive written.  The log lines and the warning about a weak password have no effect on
  the result and are left out.  A compression level of 0 is replaced by 9
  (\<^verbatim>\<open>options.compressionLevel || 9\<close>).  The count of a single file is 2: the source sets it
  to 1 and the \<^verbatim>\<open>entry\<close> event adds 1.
\<close>

definition zipArchive ::
    "kdf \<Rightarrow> byte list \<Rightarrow> (nat \<Rightarrow> zipfile \<Rightarrow> string)
     \<Rightarrow> (string \<Rightarrow> 'h option) \<Rightarrow> ('h \<Rightarrow> string \<Rightarrow> 'h) \<Rightarrow> ('h \<Rightarrow> byte list) \<Rightarrow> nat
     \<Rightarrow> string \<Rightarrow> node option \<Rightarrow> string \<Rightarrow> string
     \<Rightarrow> string option \<Rightarrow> nat option \<Rightarrow> string option
     \<Rightarrow> zip_error + ZipResult \<times> zipfile" where
  "zipArchive kdf rnd encode createHash update digest elapsed cwd sourceNode sourcePath outPath
       optPassword optCompressionLevel optGenerateHash =
     (let source = resolve cwd sourcePath;
          output = resolve cwd outPath
      in case sourceNode of
           None \<Rightarrow> Inl SourceDoesNotExist
         | Some tree \<Rightarrow>
             (let originalSize = calculateDirectorySize tree;
                  level = (case optCompressionLevel of None \<Rightarrow> 9 | Some l \<Rightarrow> if l = 0 then 9 else l);
                  entries = (case tree of
                               Directory items \<Rightarrow> archiveDirectory items (basename source)
                             | File content \<Rightarrow> [\<lparr>fileName = basename source, readStream = Some content\<rparr>]);
                  count = (case tree of Directory items \<Rightarrow> length entries | File content \<Rightarrow> 1 + length entries)
              in case archiveComment kdf rnd optPassword of
                   Inl err \<Rightarrow> Inl (PasswordHashError err)
                 | Inr zcomment \<Rightarrow>
                     (let z = \<lparr>comment = zcomment, events = map Entry entries\<rparr>;
                          written = encode level z;
                          statSize = length written;
                          ratio = (if originalSize > 0
                                   then ((real originalSize - real statSize) / real originalSize) * 100
                                   else 0);
                          rounded = real_of_int (mathRound (ratio * 100)) / 100;
                          noHash = \<lparr>outputPath = output, size' = statSize, directory' = dirname output,
                                    hash' = None, hashAlgorithm = None,
                                    compressionRatio = rounded, fileCount = count\<rparr>
                      in case optGenerateHash of
                           None \<Rightarrow> Inr (noHash, z)
                         | Some alg \<Rightarrow>
                             if alg = [] then Inr (noHash, z)
                             else
                               (case generateFileHash createHash update digest elapsed (Some written)
                                       output alg False of
                                  Inl err \<Rightarrow> Inl (HashError err)
                                | Inr (hashResult, reports) \<Rightarrow>
                                    Inr (noHash\<lparr>hash' := Some (hash hashResult),
                                                 hashAlgorithm := Some (algorithm hashResult)\<rparr>, z)))))"
text \<open>
  A tree whose names are ordinary file names: not empty, not \<open>.\<close> or \<open>..\<close>, without a
  separator.
\<close>

fun ordinaryNames :: "node \<Rightarrow> bool" where
  "ordinaryNames (File content) = True"
| "ordinaryNames (Directory items) =
     list_all (\<lambda>item. cleanSegs [fst item] \<and> ordinaryNames (snd item)) items"

section \<open>File name validation\<close>

text \<open>
  \<^verbatim>\<open>path.extname(p)\<close>: the part of the last segment from its last dot on; empty when the
  segment has no dot, when its only dot is its first character, and for the segment \<open>..\<close>.
\<close>

definition extname :: "string \<Rightarrow> string" where
  "extname p =
     (let seg = basename p in
      if CHR ''.'' \<notin> set seg then []
      else
        let ext = CHR ''.'' # rev (takeWhile (\<lambda>c. c \<noteq> CHR ''.'') (rev seg))
        in if length ext = length seg \<or> seg = ''..'' then [] else ext)"

text \<open>
  \<^verbatim>\<open>path.basename(p, path.extname(p))\<close>: the last segment without its extension.
\<close>

definition basenameWithoutExt :: "string \<Rightarrow> string" where
  "basenameWithoutExt p = (let seg = basename p in take (length seg - length (extname p)) seg)"

text \<open>
  \<^verbatim>\<open>toUpperCase\<close> and \<^verbatim>\<open>toLowerCase\<close> on the letters of ASCII.  The other characters
  are left as they are; their images under the two functions of JavaScript are not ASCII
  either, except the upper case of the sharp s, which is \<open>SS\<close>, and no reserved name
  contains \<open>SS\<close>.  So the two membership tests below are the ones of the source.
\<close>

definition toUpperCase :: "string \<Rightarrow> string" where
  "toUpperCase s =
     map (\<lambda>c. let k = (of_char c :: nat) in if 97 \<le> k \<and> k \<le> 122 then char_of (k - 32) else c) s"

definition toLowerCase :: "string \<Rightarrow> string" where
  "toLowerCase s =
     map (\<lambda>c. let k = (of_char c :: nat) in if 65 \<le> k \<and> k \<le> 90 then char_of (k + 32) else c) s"

definition DANGEROUS_EXTENSIONS :: "string list" where
  "DANGEROUS_EXTENSIONS = [''.exe'', ''.bat'', ''.cmd'', ''.com'', ''.scr'', ''.vbs'', ''.js'']"

definition reserved :: "string list" where
  "reserved = [''CON'', ''PRN'', ''AUX'', ''NUL'', ''COM1'', ''COM2'', ''COM3'', ''COM4'',
               ''COM5'', ''COM6'', ''COM7'', ''COM8'', ''COM9'', ''LPT1'', ''LPT2'',
               ''LPT3'', ''LPT4'', ''LPT5'', ''LPT6'', ''LPT7'', ''LPT8'', ''LPT9'']"

text \<open>
  The characters excluded by the class of the regular expression of \<^verbatim>\<open>validateFilename\<close>:
  \<open><\<close>, \<open>>\<close>, \<open>:\<close>, the double quote, \<open>|\<close>, \<open>?\<close>, \<open>*\<close>, the codes 0 to 31 and 127.
\<close>

definition dangerousCharacter :: "char \<Rightarrow> bool" where
  "dangerousCharacter c =
     (let k = (of_char c :: nat) in k \<in> {60, 62, 58, 34, 124, 63, 42} \<or> k \<le> 31 \<or> k = 127)"

text \<open>
  \<^verbatim>\<open>SecurityUtils.validateFilename(filename)\<close>.  The regular expression is anchored at both
  ends, so it tests every character of the name.  No function of the archive engine calls
  this validator.
\<close>

definition validateFilename :: "string \<Rightarrow> bool" where
  "validateFilename filename =
     (if filename = [] then False
      else if length filename > 255 then False
      else if \<not> list_all (\<lambda>c. \<not> dangerousCharacter c) filename then False
      else if toUpperCase (basenameWithoutExt filename) \<in> set reserved then False
      else if toLowerCase (extname filename) \<in> set DANGEROUS_EXTENSIONS then False
      else True)"

section \<open>Lemmas: strings and numbers\<close>

lemma startsWith_Cons_single: "startsWith (x # xs) [c] = (x = c)"
  by (simp add: startsWith_def)

lemma splitStr_single_nosep: "c \<notin> set a \<Longrightarrow> splitStr [c] a = [a]"
proof (induction a)
  case Nil
  show ?case by (simp add: splitStr.simps)
next
  case (Cons x xs)
  then show ?case
    by (subst splitStr.simps) (auto simp add: startsWith_Cons_single)
qed

lemma splitStr_single_append:
  "c \<notin> set a \<Longrightarrow> splitStr [c] (a @ c # rest) = a # splitStr [c] rest"
proof (induction a)
  case Nil
  show ?case by (subst splitStr.simps) (simp add: startsWith_Cons_single)
next
  case (Cons x xs)
  then show ?case
    by (subst splitStr.simps) (auto simp add: startsWith_Cons_single)
qed

lemma splitStr_nonempty: "sep \<noteq> [] \<Longrightarrow> splitStr sep s \<noteq> []"
  by (induction sep s rule: splitStr.induct) (subst splitStr.simps, simp split: list.splits)

lemma digitChar_hex: "d < 16 \<Longrightarrow> digitChar d \<in> set ''0123456789abcdef''"
  unfolding digitChar_def by (rule nth_mem) simp

lemma set_toHex: "set (toHex bs) \<subseteq> set ''0123456789abcdef''"
proof -
  have "digitChar (unat b div 16) \<in> set ''0123456789abcdef''
        \<and> digitChar (unat b mod 16) \<in> set ''0123456789abcdef''" for b :: byte
  proof -
    have "unat b < 256" using unsigned_less [of b] by simp
    then have "unat b div 16 < 16" by simp
    then have hi: "digitChar (unat b div 16) \<in> set ''0123456789abcdef''"
      by (rule digitChar_hex)
    have "unat b mod 16 < 16" by simp
    then have lo: "digitChar (unat b mod 16) \<in> set ''0123456789abcdef''"
      by (rule digitChar_hex)
    from hi lo show ?thesis by (rule conjI)
  qed
  then show ?thesis
    unfolding toHex_def by (induction bs) auto
qed

lemma length_toHex: "length (toHex bs) = 2 * length bs"
  unfolding toHex_def by (induction bs) auto

lemma dollar_notin_toHex: "CHR ''$'' \<notin> set (toHex bs)"
  using set_toHex [of bs] by auto

lemma digitChar_dec: "d < 10 \<Longrightarrow> digitChar d \<in> set ''0123456789''"
proof -
  assume "d < 10"
  then have "d \<in> {0, 1, 2, 3, 4, 5, 6, 7, 8, 9}" by auto
  then show ?thesis by (auto simp: digitChar_def)
qed

lemma set_natToString: "set (natToString n) \<subseteq> set ''0123456789''"
proof (induction n rule: natToString.induct)
  case (1 n)
  show ?case
  proof (cases "n < 10")
    case True
    then show ?thesis using digitChar_dec [of n] by (subst natToString.simps) simp
  next
    case False
    have "n mod 10 < 10" by simp
    from digitChar_dec [OF this] 1 [OF False] False
    show ?thesis by (subst natToString.simps) simp
  qed
qed

lemma natToString_nonempty: "natToString n \<noteq> []"
  by (subst natToString.simps) simp

lemma digitValue_digitChar: "d < 10 \<Longrightarrow> digitValue 10 (digitChar d) = Some d"
proof -
  assume "d < 10"
  then have "d \<in> {0, 1, 2, 3, 4, 5, 6, 7, 8, 9}" by auto
  then show ?thesis by (auto simp: digitChar_def digitValue_def)
qed

lemma readDigits_natToString:
  "readDigits 10 acc (natToString n @ rest) =
   readDigits 10 (Some ((case acc of None \<Rightarrow> 0 | Some a \<Rightarrow> a) * 10 ^ length (natToString n) + n)) rest"
proof (induction n arbitrary: acc rest rule: natToString.induct)
  case (1 n)
  show ?case
  proof (cases "n < 10")
    case True
    then show ?thesis
      by (subst (1 2) natToString.simps) (simp add: digitValue_digitChar)
  next
    case False
    have m: "n mod 10 < 10" by simp
    have "readDigits 10 acc (natToString n @ rest)
          = readDigits 10 acc (natToString (n div 10) @ (digitChar (n mod 10) # rest))"
      using False by (subst natToString.simps) simp
    also have "\<dots> = readDigits 10 (Some ((case acc of None \<Rightarrow> 0 | Some a \<Rightarrow> a) * 10 ^ length (natToString (n div 10)) + n div 10)) (digitChar (n mod 10) # rest)"
      by (rule 1 [OF False])
    also have "\<dots> = readDigits 10 (Some ((case acc of None \<Rightarrow> 0 | Some a \<Rightarrow> a) * 10 ^ length (natToString n) + n)) rest"
      using False by (subst (2) natToString.simps) (simp add: digitValue_digitChar [OF m] algebra_simps)
    finally show ?thesis .
  qed
qed

lemma parseInt_natToString: "parseInt (natToString n) = Some (int n)"
proof -
  let ?s = "natToString n"
  have ne: "?s \<noteq> []" by (rule natToString_nonempty)
  have sub: "set ?s \<subseteq> set ''0123456789''" by (rule set_natToString)
  from ne sub have hd: "hd ?s \<in> set ''0123456789''"
    using hd_in_set by blast
  then have ws: "\<not> isWhiteSpace (hd ?s)" by (auto simp: isWhiteSpace_def)
  with ne have dw: "dropWhile isWhiteSpace ?s = ?s" by (cases ?s) auto
  from hd have sg: "hd ?s \<noteq> CHR ''-''" "hd ?s \<noteq> CHR ''+''" by auto
  have nox: "\<not> startsWith ?s ''0x''" "\<not> startsWith ?s ''0X''"
  proof -
    { fix c assume "startsWith ?s [CHR ''0'', c]"
      then have "take (length [CHR ''0'', c]) ?s = [CHR ''0'', c]" by (simp only: startsWith_def)
      then have "c \<in> set (take (length [CHR ''0'', c]) ?s)" by simp
      then have "c \<in> set ?s" by (rule in_set_takeD)
      with sub have "c \<in> set ''0123456789''" by blast }
    note r = this
    show "\<not> startsWith ?s ''0x''" using r [of "CHR ''x''"] by auto
    show "\<not> startsWith ?s ''0X''" using r [of "CHR ''X''"] by auto
  qed
  have rd: "readDigits 10 None ?s = Some n"
    using readDigits_natToString [of None n "[]"] by simp
  show ?thesis
    unfolding parseInt_def Let_def dw using sg nox rd ne by simp
qed

lemma parseInt_numToString: "0 \<le> n \<Longrightarrow> parseInt (numToString n) = Some n"
  by (simp add: numToString_def parseInt_natToString)

lemma dollar_notin_numToString: "CHR ''$'' \<notin> set (numToString n)"
  using set_natToString [of "nat n"] set_natToString [of "nat (- n)"]
  by (auto simp: numToString_def)

lemma dollar_notin_tag: "CHR ''$'' \<notin> set algorithmTag"
  by (simp add: algorithmTag_def)

lemma splitStr_credential:
  assumes "CHR ''$'' \<notin> set a" "CHR ''$'' \<notin> set b" "CHR ''$'' \<notin> set c" "CHR ''$'' \<notin> set d"
  shows "splitStr ''$'' (a @ ''$'' @ b @ ''$'' @ c @ ''$'' @ d) = [a, b, c, d]"
  using assms by (simp add: splitStr_single_append splitStr_single_nosep)

lemma numToString_nonempty: "numToString n \<noteq> []"
  by (simp add: numToString_def natToString_nonempty)

lemma verifyPassword_iff:
  "verifyPassword kdf password cred \<longleftrightarrow>
     (\<exists>it salt dg n. splitStr ''$'' cred = [algorithmTag, it, salt, dg]
        \<and> parseInt (if it = [] then ''100000'' else it) = Some n
        \<and> 1 \<le> n \<and> n \<le> 2147483647
        \<and> dg = derivedDigest kdf password salt n)"
proof (cases "length (splitStr ''$'' cred) = 4")
  case False
  then show ?thesis
    by (auto simp: verifyPassword_def verifyPasswordBody_def Let_def)
next
  case True
  then obtain a b c d where parts: "splitStr ''$'' cred = [a, b, c, d]"
    by (auto simp: length_Suc_conv numeral_eq_Suc)
  show ?thesis
    unfolding verifyPassword_def verifyPasswordBody_def Let_def parts pbkdf2Sync_def derivedDigest_def
    by (auto split: option.splits)
qed

lemma parseInt_100000: "parseInt ''100000'' = Some 100000"
  by (simp add: parseInt_def startsWith_def isWhiteSpace_def digitValue_def)

lemma parseInt_empty: "parseInt [] = None"
  by (simp add: parseInt_def startsWith_def)

lemma kdf_collision:
  "\<exists>p q. p \<noteq> q \<and> derivedDigest kdf p s n = derivedDigest kdf q s n"
proof -
  let ?f = "\<lambda>p. map (kdf p s n) [0..<64]"
  have fin: "finite {xs :: byte list. set xs \<subseteq> UNIV \<and> length xs = 64}"
    by (rule finite_lists_length_eq) simp
  have "range ?f \<subseteq> {xs. set xs \<subseteq> UNIV \<and> length xs = 64}" by auto
  then have "finite (range ?f)" using fin by (rule finite_subset)
  have "\<not> inj ?f"
  proof
    assume "inj ?f"
    have "finite (UNIV :: string set)"
      by (rule finite_imageD [OF \<open>finite (range ?f)\<close> \<open>inj ?f\<close>])
    then show False using infinite_UNIV_listI by blast
  qed
  then obtain p q where "p \<noteq> q" "?f p = ?f q" by (auto simp: inj_on_def)
  then show ?thesis unfolding derivedDigest_def by metis
qed

lemma generatePasswordHash_eq:
  "generatePasswordHash kdf rnd password salt n =
     (if 1 \<le> n \<and> n \<le> 2147483647
      then Inr (algorithmTag @ ''$'' @ numToString n @ ''$'' @ saltToUse rnd salt @ ''$''
                @ derivedDigest kdf password (saltToUse rnd salt) n)
      else Inl RangeError)"
  by (simp add: generatePasswordHash_def pbkdf2Sync_def derivedDigest_def)

lemma splitStr_generated:
  assumes "CHR ''$'' \<notin> set s"
  shows "splitStr ''$'' (algorithmTag @ ''$'' @ numToString n @ ''$'' @ s @ ''$'' @ derivedDigest kdf p s n)
         = [algorithmTag, numToString n, s, derivedDigest kdf p s n]"
  by (rule splitStr_credential)
     (simp_all add: dollar_notin_tag dollar_notin_numToString assms derivedDigest_def dollar_notin_toHex)

section \<open>Credential round trip\<close>

text \<open>The encoder followed by the verifier, for a salt without \<open>$\<close>.\<close>

lemma credential_round_trip_general:
  assumes "1 \<le> n" and "n \<le> 2147483647" and "CHR ''$'' \<notin> set (saltToUse rnd salt)"
  shows "\<exists>h. generatePasswordHash kdf rnd password salt n = Inr h
           \<and> verifyPassword kdf password h
           \<and> (\<forall>q. verifyPassword kdf q h \<longleftrightarrow>
                  derivedDigest kdf q (saltToUse rnd salt) n
                  = derivedDigest kdf password (saltToUse rnd salt) n)"
proof -
  let ?s = "saltToUse rnd salt"
  let ?h = "algorithmTag @ ''$'' @ numToString n @ ''$'' @ ?s @ ''$'' @ derivedDigest kdf password ?s n"
  have gen: "generatePasswordHash kdf rnd password salt n = Inr ?h"
    using assms(1,2) by (simp add: generatePasswordHash_eq)
  have parts: "splitStr ''$'' ?h = [algorithmTag, numToString n, ?s, derivedDigest kdf password ?s n]"
    using assms(3) by (rule splitStr_generated)
  have pi: "parseInt (numToString n) = Some n"
    using assms(1) by (simp add: parseInt_numToString)
  have iff: "verifyPassword kdf q ?h \<longleftrightarrow>
               derivedDigest kdf q ?s n = derivedDigest kdf password ?s n" for q
    unfolding verifyPassword_iff parts using pi assms(1,2)
    by (auto simp: numToString_nonempty)
  from gen iff show ?thesis by simp
qed

text \<open>
  Claim C3, as the code has it.  For every password, every iteration count \<open>n\<close> with
  \<open>1 \<le> n \<le> 2^31 - 1\<close> and every salt that contains no \<open>$\<close> (a missing or empty salt
  is replaced by random hexadecimal digits), \<^verbatim>\<open>generatePasswordHash\<close> returns a
  credential string, \<^verbatim>\<open>verifyPassword\<close> accepts the password it was made from, and it
  accepts another password exactly when that password derives the same digest under the
  same salt and iteration count; every password with a different digest is rejected.
\<close>

theorem credential_round_trip:
  assumes "1 \<le> n" and "n \<le> 2147483647" and "CHR ''$'' \<notin> set (saltToUse rnd salt)"
  shows "\<exists>h. generatePasswordHash kdf rnd password salt n = Inr h
           \<and> verifyPassword kdf password h
           \<and> (\<forall>q. verifyPassword kdf q h \<longleftrightarrow>
                  derivedDigest kdf q (saltToUse rnd salt) n
                  = derivedDigest kdf password (saltToUse rnd salt) n)"
  using assms by (rule credential_round_trip_general)

theorem credential_round_trip_witness:
  "\<exists>h. generatePasswordHash (\<lambda>p s n i. of_nat (length p)) [] ''p@ss'' (Some ''5a17'') 100000 = Inr h
       \<and> verifyPassword (\<lambda>p s n i. of_nat (length p)) ''p@ss'' h
       \<and> \<not> verifyPassword (\<lambda>p s n i. of_nat (length p)) ''wrong'' h"
proof -
  have d: "derivedDigest (\<lambda>p s n i. of_nat (length p)) ''wrong'' ''5a17'' 100000
        \<noteq> derivedDigest (\<lambda>p s n i. of_nat (length p)) ''p@ss'' ''5a17'' 100000"
    by (simp add: derivedDigest_def toHex_def upt_rec [of 0] digitChar_def)
  have s: "saltToUse [] (Some ''5a17'') = ''5a17''"
    by (simp add: saltToUse_def)
  have "(1::int) \<le> 100000" "(100000::int) \<le> 2147483647" "CHR ''$'' \<notin> set (saltToUse [] (Some ''5a17''))"
    by (simp_all add: s)
  from credential_round_trip [OF this, of "\<lambda>p s n i. of_nat (length p)" "''p@ss''"] d
  show ?thesis unfolding s by blast
qed

text \<open>
  The claim as stated, for every salt, fails: a salt with a \<open>$\<close> in it is embedded as it
  is, the credential then has five fields, and the correct password is rejected.
\<close>

theorem credential_round_trip_counterexample:
  "\<not> (\<forall>kdf rnd password salt n.
        \<exists>h. generatePasswordHash kdf rnd password salt n = Inr h \<and> verifyPassword kdf password h)"
proof
  assume a: "\<forall>kdf rnd password salt n.
        \<exists>h. generatePasswordHash kdf rnd password salt n = Inr h \<and> verifyPassword kdf password h"
  let ?kdf = "\<lambda>p s n i. 0 :: byte"
  let ?d = "derivedDigest ?kdf ''p@ss'' ''a$b'' 100000"
  let ?h = "algorithmTag @ CHR ''$'' # numToString 100000 @ CHR ''$'' # ''a'' @ CHR ''$'' # ''b'' @ CHR ''$'' # ?d"
  from a obtain h where h: "generatePasswordHash ?kdf [] ''p@ss'' (Some ''a$b'') 100000 = Inr h"
    and v: "verifyPassword ?kdf ''p@ss'' h" by blast
  from h have "h = ?h" by (simp add: generatePasswordHash_eq saltToUse_def)
  moreover have "splitStr ''$'' ?h = [algorithmTag, numToString 100000, ''a'', ''b'', ?d]"
  proof -
    have ab: "CHR ''$'' \<notin> set ''a''" "CHR ''$'' \<notin> set ''b''" by simp_all
    have d: "CHR ''$'' \<notin> set ?d" by (simp add: derivedDigest_def dollar_notin_toHex)
    show ?thesis
      by (simp only: splitStr_single_append splitStr_single_nosep
            dollar_notin_tag dollar_notin_numToString ab d not_False_eq_True)
  qed
  ultimately have "\<not> verifyPassword ?kdf ''p@ss'' h"
    unfolding verifyPassword_iff by simp
  with v show False by contradiction
qed

text \<open>Outside the range of iteration counts \<^verbatim>\<open>pbkdf2Sync\<close> throws, and so does the encoder.\<close>

lemma generatePasswordHash_out_of_range:
  "n < 1 \<or> 2147483647 < n \<Longrightarrow> generatePasswordHash kdf rnd password salt n = Inl RangeError"
  by (auto simp: generatePasswordHash_eq)

text \<open>
  The digest has 64 bytes and there are infinitely many passwords: two different passwords
  with the same digest exist for every key derivation function, so no implementation can
  reject every password but the original one.
\<close>

lemma wrong_password_may_verify:
  assumes "1 \<le> n" and "n \<le> 2147483647" and "CHR ''$'' \<notin> set (saltToUse rnd salt)"
  shows "\<exists>p q h. p \<noteq> q \<and> generatePasswordHash kdf rnd p salt n = Inr h \<and> verifyPassword kdf q h"
proof -
  obtain p q where pq: "p \<noteq> q"
    "derivedDigest kdf p (saltToUse rnd salt) n = derivedDigest kdf q (saltToUse rnd salt) n"
    using kdf_collision by blast
  from credential_round_trip_general [OF assms, of kdf p] pq show ?thesis by metis
qed

lemma joinStr_Cons: "ps \<noteq> [] \<Longrightarrow> joinStr sep (p # ps) = p @ sep @ joinStr sep ps"
  by (cases ps) simp_all

lemma joinStr_splitStr: "joinStr [c] (splitStr [c] s) = s"
proof (induction s)
  case Nil
  show ?case by (simp add: splitStr.simps)
next
  case (Cons x xs)
  show ?case
  proof (cases "x = c")
    case True
    have "splitStr [c] (x # xs) = [] # splitStr [c] xs"
      using True by (subst splitStr.simps) (simp add: startsWith_Cons_single)
    then show ?thesis
      using Cons True by (simp add: joinStr_Cons splitStr_nonempty)
  next
    case False
    obtain p ps where pp: "splitStr [c] xs = p # ps"
      using splitStr_nonempty [of "[c]" xs] by (cases "splitStr [c] xs") auto
    have "splitStr [c] (x # xs) = (x # p) # ps"
      using False pp by (subst splitStr.simps) (simp add: startsWith_Cons_single)
    then show ?thesis
      using Cons pp by (cases ps) simp_all
  qed
qed

lemma splitStr_four:
  assumes "splitStr ''$'' h = [a, b, c, d]"
  shows "h = a @ ''$'' @ b @ ''$'' @ c @ ''$'' @ d"
  using joinStr_splitStr [of "CHR ''$''" h] assms by simp

lemma verifyPassword_raise: "verifyPasswordBody kdf password cred = Inl e \<Longrightarrow> \<not> verifyPassword kdf password cred"
  by (simp add: verifyPassword_def)

section \<open>Failing closed\<close>

text \<open>
  Claim C5, as the code has it.  \<^verbatim>\<open>verifyPassword\<close> never raises: an exception of
  the body is turned into \<open>false\<close>.  It returns \<open>false\<close> when the string does not split
  into exactly four fields at \<open>$\<close>, when the first field is not the algorithm tag, and when
  the iteration field is not empty and does not parse to an integer between 1 and
  \<open>2^31 - 1\<close>.  An empty iteration field is not rejected: it is read as 100000.  After one
  character of an encoded credential has been changed, a password is accepted only if the
  string still reads \<open>tag$iterations$salt$digest\<close>, with fields that differ from the
  original ones, and the digest derived from that password under the changed iteration
  count and salt equals the changed digest field.
\<close>

theorem verifyPassword_fail_closed:
  "(\<forall>e. verifyPasswordBody kdf password cred = Inl e \<longrightarrow> \<not> verifyPassword kdf password cred)
   \<and> (length (splitStr ''$'' cred) \<noteq> 4 \<longrightarrow> \<not> verifyPassword kdf password cred)
   \<and> (splitStr ''$'' cred ! 0 \<noteq> algorithmTag \<longrightarrow> \<not> verifyPassword kdf password cred)
   \<and> (splitStr ''$'' cred ! 1 \<noteq> [] \<and>
       (\<forall>n. parseInt (splitStr ''$'' cred ! 1) = Some n \<longrightarrow> n < 1 \<or> 2147483647 < n)
        \<longrightarrow> \<not> verifyPassword kdf password cred)
   \<and> (splitStr ''$'' cred = [algorithmTag, [], salt, dg] \<longrightarrow>
        verifyPassword kdf password cred = (dg = derivedDigest kdf password salt 100000))
   \<and> (\<forall>rnd p s n h i c.
        generatePasswordHash kdf rnd p s n = Inr h \<and> cred = h[i := c] \<and> i < length h \<and> c \<noteq> h ! i
        \<and> verifyPassword kdf password cred \<longrightarrow>
        (\<exists>it' salt' dg' n'.
            cred = algorithmTag @ ''$'' @ it' @ ''$'' @ salt' @ ''$'' @ dg'
          \<and> (it', salt', dg') \<noteq> (numToString n, saltToUse rnd s, derivedDigest kdf p (saltToUse rnd s) n)
          \<and> parseInt (if it' = [] then ''100000'' else it') = Some n'
          \<and> dg' = derivedDigest kdf password salt' n'))"
proof (intro conjI allI impI)
  fix e assume "verifyPasswordBody kdf password cred = Inl e"
  then show "\<not> verifyPassword kdf password cred" by (rule verifyPassword_raise)
next
  assume "length (splitStr ''$'' cred) \<noteq> 4"
  then show "\<not> verifyPassword kdf password cred" unfolding verifyPassword_iff by auto
next
  assume "splitStr ''$'' cred ! 0 \<noteq> algorithmTag"
  then show "\<not> verifyPassword kdf password cred" unfolding verifyPassword_iff by auto
next
  assume "splitStr ''$'' cred ! 1 \<noteq> [] \<and>
       (\<forall>n. parseInt (splitStr ''$'' cred ! 1) = Some n \<longrightarrow> n < 1 \<or> 2147483647 < n)"
  then show "\<not> verifyPassword kdf password cred" unfolding verifyPassword_iff by fastforce
next
  assume "splitStr ''$'' cred = [algorithmTag, [], salt, dg]"
  then show "verifyPassword kdf password cred = (dg = derivedDigest kdf password salt 100000)"
    unfolding verifyPassword_iff by (simp add: parseInt_100000)
next
  fix rnd p s n h i c
  assume a: "generatePasswordHash kdf rnd p s n = Inr h \<and> cred = h[i := c] \<and> i < length h \<and> c \<noteq> h ! i
        \<and> verifyPassword kdf password cred"
  let ?s = "saltToUse rnd s"
  let ?d = "derivedDigest kdf p ?s n"
  from a have h: "h = algorithmTag @ ''$'' @ numToString n @ ''$'' @ ?s @ ''$'' @ ?d"
    by (simp add: generatePasswordHash_eq split: if_splits)
  from a have ne: "cred \<noteq> h"
    by (metis nth_list_update_eq)
  from a obtain it' salt' dg' n' where parts: "splitStr ''$'' cred = [algorithmTag, it', salt', dg']"
    and pi: "parseInt (if it' = [] then ''100000'' else it') = Some n'"
    and dg: "dg' = derivedDigest kdf password salt' n'"
    unfolding verifyPassword_iff by blast
  from parts have hs: "cred = algorithmTag @ ''$'' @ it' @ ''$'' @ salt' @ ''$'' @ dg'"
    by (rule splitStr_four)
  with ne h have "(it', salt', dg') \<noteq> (numToString n, ?s, ?d)" by auto
  with hs pi dg show "\<exists>it' salt' dg' n'.
            cred = algorithmTag @ ''$'' @ it' @ ''$'' @ salt' @ ''$'' @ dg'
          \<and> (it', salt', dg') \<noteq> (numToString n, ?s, ?d)
          \<and> parseInt (if it' = [] then ''100000'' else it') = Some n'
          \<and> dg' = derivedDigest kdf password salt' n'" by blast
qed

text \<open>
  The claim as stated fails on a parse failure: the empty iteration field does not parse
  (\<^verbatim>\<open>parseInt('')\<close> is \<^verbatim>\<open>NaN\<close>), and the credential is accepted all the same.
\<close>

theorem verifyPassword_fail_closed_counterexample:
  "\<not> (\<forall>kdf password cred.
        parseInt (splitStr ''$'' cred ! 1) = None \<longrightarrow> \<not> verifyPassword kdf password cred)"
proof
  assume a: "\<forall>kdf password cred.
        parseInt (splitStr ''$'' cred ! 1) = None \<longrightarrow> \<not> verifyPassword kdf password cred"
  let ?kdf = "\<lambda>p s n i. 0 :: byte"
  let ?d = "derivedDigest ?kdf ''p@ss'' ''5a17'' 100000"
  let ?h = "algorithmTag @ ''$'' @ [] @ ''$'' @ ''5a17'' @ ''$'' @ ?d"
  have parts: "splitStr ''$'' ?h = [algorithmTag, [], ''5a17'', ?d]"
    by (rule splitStr_credential)
       (simp_all add: dollar_notin_tag derivedDigest_def dollar_notin_toHex)
  have "verifyPassword ?kdf ''p@ss'' ?h"
    unfolding verifyPassword_iff parts by (simp add: parseInt_100000)
  moreover have "parseInt (splitStr ''$'' ?h ! 1) = None"
    unfolding parts by (simp add: parseInt_empty)
  ultimately show False using a by blast
qed

lemma parseInt_abc: "parseInt ''abc'' = None"
  by (simp add: parseInt_def startsWith_def isWhiteSpace_def digitValue_def)

theorem verifyPassword_fail_closed_witness:
  "\<not> verifyPassword (\<lambda>p s n i. 0) ''p@ss'' ''not-a-credential''
   \<and> \<not> verifyPassword (\<lambda>p s n i. 0) ''p@ss'' ''md5$1$5a17$00''
   \<and> \<not> verifyPassword (\<lambda>p s n i. 0) ''p@ss'' ''pbkdf2_sha512$abc$5a17$00''
   \<and> \<not> verifyPassword (\<lambda>p s n i. 0) ''p@ss'' ''pbkdf2_sha512$0$5a17$00''"
proof -
  let ?kdf = "\<lambda>p s n i. 0 :: byte"
  have s1: "splitStr ''$'' ''not-a-credential'' = [''not-a-credential'']"
    by (rule splitStr_single_nosep) simp
  have s2: "splitStr ''$'' (''md5'' @ ''$'' @ ''1'' @ ''$'' @ ''5a17'' @ ''$'' @ ''00'') = [''md5'', ''1'', ''5a17'', ''00'']"
    by (rule splitStr_credential) simp_all
  have s3: "splitStr ''$'' (''pbkdf2_sha512'' @ ''$'' @ ''abc'' @ ''$'' @ ''5a17'' @ ''$'' @ ''00'')
            = [''pbkdf2_sha512'', ''abc'', ''5a17'', ''00'']"
    by (rule splitStr_credential) simp_all
  have s4: "splitStr ''$'' (''pbkdf2_sha512'' @ ''$'' @ ''0'' @ ''$'' @ ''5a17'' @ ''$'' @ ''00'')
            = [''pbkdf2_sha512'', ''0'', ''5a17'', ''00'']"
    by (rule splitStr_credential) simp_all
  have p0: "parseInt ''0'' = Some 0"
    by (simp add: parseInt_def startsWith_def isWhiteSpace_def digitValue_def)
  have c1: "\<not> verifyPassword ?kdf ''p@ss'' ''not-a-credential''"
    using verifyPassword_fail_closed [of ?kdf "''p@ss''" "''not-a-credential''"] s1 by simp
  have c2: "\<not> verifyPassword ?kdf ''p@ss'' ''md5$1$5a17$00''"
    using verifyPassword_fail_closed [of ?kdf "''p@ss''" "''md5$1$5a17$00''"] s2
    by (simp add: algorithmTag_def)
  have c3: "\<not> verifyPassword ?kdf ''p@ss'' ''pbkdf2_sha512$abc$5a17$00''"
    using verifyPassword_fail_closed [of ?kdf "''p@ss''" "''pbkdf2_sha512$abc$5a17$00''"] s3
    by (simp add: parseInt_abc)
  have c4: "\<not> verifyPassword ?kdf ''p@ss'' ''pbkdf2_sha512$0$5a17$00''"
    using verifyPassword_fail_closed [of ?kdf "''p@ss''" "''pbkdf2_sha512$0$5a17$00''"] s4
    by (simp add: p0)
  from c1 c2 c3 c4 show ?thesis by simp
qed





lemma strictEqualsSteps_update:
  "i < length d \<Longrightarrow> c \<noteq> d ! i \<Longrightarrow> strictEqualsSteps (d[i := c]) d = Suc i"
proof (induction d arbitrary: i)
  case Nil
  then show ?case by simp
next
  case (Cons x xs)
  then show ?case by (cases i) simp_all
qed

lemma length_derivedDigest: "length (derivedDigest kdf p s n) = 128"
  by (simp add: derivedDigest_def length_toHex)

lemma g_notin_derivedDigest: "CHR ''g'' \<notin> set (derivedDigest kdf p s n)"
  using set_toHex [of "map (kdf p s n) [0..<64]"] by (auto simp: derivedDigest_def)

lemma parseInt_1: "parseInt ''1'' = Some 1"
  by (simp add: parseInt_def startsWith_def isWhiteSpace_def digitValue_def)

lemma tampered_digest:
  fixes kdf :: kdf and password :: string
  assumes "i < 128"
  defines "d \<equiv> derivedDigest kdf password ''5a17'' 1"
  defines "h \<equiv> algorithmTag @ ''$'' @ ''1'' @ ''$'' @ ''5a17'' @ ''$'' @ d[i := CHR ''g'']"
  shows "\<not> verifyPassword kdf password h" and "verifyPasswordSteps kdf password h = Suc i"
proof -
  have len: "i < length d" using assms(1) by (simp add: d_def length_derivedDigest)
  have ne: "CHR ''g'' \<noteq> d ! i"
    using g_notin_derivedDigest [of kdf password "''5a17''" 1] len nth_mem [OF len]
    unfolding d_def by metis
  have nd: "CHR ''$'' \<notin> set (d[i := CHR ''g''])"
  proof
    assume "CHR ''$'' \<in> set (d[i := CHR ''g''])"
    then have "CHR ''$'' \<in> insert (CHR ''g'') (set d)"
      using set_update_subset_insert by fastforce
    then show False by (simp add: d_def derivedDigest_def dollar_notin_toHex)
  qed
  have parts: "splitStr ''$'' h = [algorithmTag, ''1'', ''5a17'', d[i := CHR ''g'']]"
    unfolding h_def by (rule splitStr_credential) (simp_all add: dollar_notin_tag nd)
  have neq: "d[i := CHR ''g''] \<noteq> d"
    using ne len by (metis nth_list_update_eq)
  show "\<not> verifyPassword kdf password h"
    unfolding verifyPassword_iff parts using neq by (simp add: parseInt_1 d_def)
  show "verifyPasswordSteps kdf password h = Suc i"
    unfolding verifyPasswordSteps_def Let_def parts pbkdf2Sync_def
    using strictEqualsSteps_update [OF len ne]
    by (simp add: parseInt_1 d_def derivedDigest_def)
qed

section \<open>The digest comparison\<close>

text \<open>
  Claim C6.  \<^verbatim>\<open>verifyPassword\<close> splits the credential, derives the digest again from
  the password with the embedded iteration count and salt, and compares it with the
  embedded digest; but the comparison is \<^verbatim>\<open>===\<close>, not a constant-time one.  Two stored
  digests that are both wrong, one in its first character and one in its last, are both
  rejected, after 1 and after 128 inspected characters: the cost tells where the digests
  first differ.
\<close>

theorem verifyPassword_comparison_stops_early:
  fixes kdf :: kdf and password :: string
  defines "d \<equiv> derivedDigest kdf password ''5a17'' 1"
  defines "early \<equiv> algorithmTag @ ''$'' @ ''1'' @ ''$'' @ ''5a17'' @ ''$'' @ d[0 := CHR ''g'']"
  defines "late \<equiv> algorithmTag @ ''$'' @ ''1'' @ ''$'' @ ''5a17'' @ ''$'' @ d[127 := CHR ''g'']"
  shows "\<not> verifyPassword kdf password early \<and> \<not> verifyPassword kdf password late
         \<and> verifyPasswordSteps kdf password early = 1
         \<and> verifyPasswordSteps kdf password late = 128"
  unfolding early_def late_def d_def
  using tampered_digest [of 0 kdf password] tampered_digest [of 127 kdf password]
  by simp

theorem verifyPassword_comparison_stops_early_witness:
  "verifyPasswordSteps (\<lambda>p s n i. 0) ''p@ss''
     (algorithmTag @ ''$'' @ ''1'' @ ''$'' @ ''5a17'' @ ''$'' @ (derivedDigest (\<lambda>p s n i. 0) ''p@ss'' ''5a17'' 1)[0 := CHR ''g''])
   < verifyPasswordSteps (\<lambda>p s n i. 0) ''p@ss''
     (algorithmTag @ ''$'' @ ''1'' @ ''$'' @ ''5a17'' @ ''$'' @ (derivedDigest (\<lambda>p s n i. 0) ''p@ss'' ''5a17'' 1)[127 := CHR ''g''])"
  using verifyPassword_comparison_stops_early [of "\<lambda>p s n i. 0" "''p@ss''"]
  by simp

section \<open>Lemmas: paths\<close>

lemma cleanSegs_Nil [simp]: "cleanSegs []"
  by (simp add: cleanSegs_def)

lemma cleanSegs_append [simp]: "cleanSegs (xs @ ys) \<longleftrightarrow> cleanSegs xs \<and> cleanSegs ys"
  by (auto simp: cleanSegs_def)

lemma cleanSegs_Cons: "cleanSegs (x # xs) \<longleftrightarrow> (x \<noteq> [] \<and> x \<noteq> ''.'' \<and> x \<noteq> ''..'' \<and> CHR ''/'' \<notin> set x) \<and> cleanSegs xs"
  by (auto simp: cleanSegs_def)

lemma cleanSegs_butlast: "cleanSegs xs \<Longrightarrow> cleanSegs (butlast xs)"
  by (auto simp: cleanSegs_def dest: in_set_butlastD)

lemma cleanSegs_prefix: "cleanSegs xs \<Longrightarrow> prefix ys xs \<Longrightarrow> cleanSegs ys"
  by (auto simp: prefix_def)

lemma splitStr_sep_free: "s \<in> set (splitStr [c] p) \<Longrightarrow> c \<notin> set s"
proof (induction p arbitrary: s)
  case Nil
  then show ?case by (simp add: splitStr.simps)
next
  case (Cons x xs)
  show ?case
  proof (cases "x = c")
    case True
    then have "splitStr [c] (x # xs) = [] # splitStr [c] xs"
      by (subst splitStr.simps) (simp add: startsWith_Cons_single)
    with Cons show ?thesis by auto
  next
    case False
    obtain q qs where qq: "splitStr [c] xs = q # qs"
      using splitStr_nonempty [of "[c]" xs] by (cases "splitStr [c] xs") auto
    have "splitStr [c] (x # xs) = (x # q) # qs"
      using False qq by (subst splitStr.simps) (simp add: startsWith_Cons_single)
    with Cons qq False show ?thesis by auto
  qed
qed

lemma normalizeSegments_clean:
  "cleanSegs res \<Longrightarrow> \<forall>s \<in> set segs. CHR ''/'' \<notin> set s \<Longrightarrow> cleanSegs (normalizeSegments False res segs)"
proof (induction segs arbitrary: res)
  case Nil
  then show ?case by simp
next
  case (Cons seg segs)
  then show ?case
    by (auto simp: cleanSegs_butlast cleanSegs_Cons)
qed

lemma components_clean: "cleanSegs (components p)"
  unfolding components_def
  by (rule normalizeSegments_clean) (auto dest: splitStr_sep_free)

lemma normalizeSegments_append:
  "normalizeSegments a res (xs @ ys) = normalizeSegments a (normalizeSegments a res xs) ys"
  by (induction xs arbitrary: res) auto

lemma normalizeSegments_id: "cleanSegs segs \<Longrightarrow> normalizeSegments a res segs = res @ segs"
  by (induction segs arbitrary: res) (auto simp: cleanSegs_Cons)

lemma joinStr_append:
  "xs \<noteq> [] \<Longrightarrow> ys \<noteq> [] \<Longrightarrow> joinStr s (xs @ ys) = joinStr s xs @ s @ joinStr s ys"
proof (induction xs)
  case Nil
  then show ?case by simp
next
  case (Cons x xs)
  then show ?case by (cases xs) (simp_all add: joinStr_Cons)
qed

lemma splitStr_joinStr_append:
  assumes "cs \<noteq> []" and "\<forall>s \<in> set cs. CHR ''/'' \<notin> set s"
  shows "splitStr ''/'' (joinStr ''/'' cs @ CHR ''/'' # rest) = cs @ splitStr ''/'' rest"
  using assms
proof (induction cs)
  case Nil
  then show ?case by simp
next
  case (Cons a cs)
  show ?case
  proof (cases cs)
    case Nil
    with Cons.prems show ?thesis by (simp add: splitStr_single_append)
  next
    case (Cons b bs)
    with Cons.prems Cons.IH show ?thesis by (simp add: splitStr_single_append)
  qed
qed

lemma splitStr_joinStr:
  assumes "cs \<noteq> []" and "\<forall>s \<in> set cs. CHR ''/'' \<notin> set s"
  shows "splitStr ''/'' (joinStr ''/'' cs) = cs"
proof -
  from assms(1) obtain init l where cs: "cs = init @ [l]"
    by (metis append_butlast_last_id)
  show ?thesis
  proof (cases "init = []")
    case True
    with cs assms show ?thesis by (simp add: splitStr_single_nosep)
  next
    case False
    with cs assms show ?thesis
      by (simp add: joinStr_append splitStr_joinStr_append splitStr_single_nosep)
  qed
qed

lemma cleanSegs_sep_free: "cleanSegs cs \<Longrightarrow> \<forall>s \<in> set cs. CHR ''/'' \<notin> set s"
  by (simp add: cleanSegs_def)

lemma splitStr_slash_Cons: "splitStr ''/'' (CHR ''/'' # rest) = [] # splitStr ''/'' rest"
  by (subst splitStr.simps) (simp add: startsWith_Cons_single)

lemma splitStr_Nil: "splitStr ''/'' [] = [[]]"
  by (simp add: splitStr.simps)

lemma components_pathOf: "cleanSegs cs \<Longrightarrow> components (pathOf cs) = cs"
proof (cases "cs = []")
  case True
  then show ?thesis
    by (simp add: components_def pathOf_def splitStr_slash_Cons splitStr_Nil)
next
  case False
  assume "cleanSegs cs"
  with False show ?thesis
    by (simp add: components_def pathOf_def splitStr_slash_Cons splitStr_joinStr
          cleanSegs_sep_free normalizeSegments_id)
qed

lemma joinStr_clean_nonempty: "cleanSegs cs \<Longrightarrow> cs \<noteq> [] \<Longrightarrow> joinStr ''/'' cs \<noteq> []"
proof (cases cs)
  case Nil
  assume "cs \<noteq> []"
  with Nil show ?thesis by simp
next
  case (Cons a as)
  assume "cleanSegs cs"
  with Cons show ?thesis by (cases as) (auto simp: cleanSegs_Cons)
qed

lemma pathOf_inj: "cleanSegs xs \<Longrightarrow> cleanSegs ys \<Longrightarrow> pathOf xs = pathOf ys \<Longrightarrow> xs = ys"
  by (metis components_pathOf)

lemma withinRoot_prefix:
  assumes "cleanSegs rc" and "cleanSegs tc" and "withinRoot (pathOf rc) (pathOf tc)"
  shows "prefix rc tc \<and> (rc = [] \<longrightarrow> tc = [])"
proof (cases "pathOf tc = pathOf rc")
  case True
  with assms have "tc = rc" by (metis pathOf_inj)
  then show ?thesis by simp
next
  case False
  with assms(3) have "startsWith (pathOf tc) (pathOf rc @ ''/'')"
    by (simp add: withinRoot_def)
  then obtain rest where r: "pathOf tc = (pathOf rc @ ''/'') @ rest"
    unfolding startsWith_def by (metis append_take_drop_id)
  then have j: "joinStr ''/'' tc = joinStr ''/'' rc @ CHR ''/'' # rest"
    by (simp add: pathOf_def)
  have tne: "tc \<noteq> []" using j by auto
  have sp: "splitStr ''/'' (joinStr ''/'' tc) = tc"
    using tne assms(2) by (simp add: splitStr_joinStr cleanSegs_sep_free)
  show ?thesis
  proof (cases "rc = []")
    case True
    with j sp have "tc = [] # splitStr ''/'' rest"
      by (simp add: splitStr_slash_Cons)
    with assms(2) show ?thesis by (metis cleanSegs_Cons)
  next
    case False
    with j sp assms(1) have "tc = rc @ splitStr ''/'' rest"
      by (simp add: splitStr_joinStr_append cleanSegs_sep_free)
    with False show ?thesis by simp
  qed
qed

lemma prefix_withinRoot:
  assumes "rc \<noteq> []" and "prefix rc a"
  shows "withinRoot (pathOf rc) (pathOf a)"
proof -
  from assms(2) obtain ys where a: "a = rc @ ys" by (auto simp: prefix_def)
  show ?thesis
  proof (cases ys)
    case Nil
    with a show ?thesis by (simp add: withinRoot_def)
  next
    case (Cons y ys')
    with a assms(1) show ?thesis
      by (simp add: withinRoot_def pathOf_def joinStr_append startsWith_def)
  qed
qed

lemma resolve_eq:
  assumes "isAbsolute cwd"
  shows "resolve cwd p = pathOf (components (if p = [] then cwd @ ''/''
                                   else if isAbsolute p then p @ ''/'' else cwd @ ''/'' @ p @ ''/''))"
proof -
  from assms have "cwd \<noteq> []" by (simp add: isAbsolute_def)
  with assms show ?thesis
    by (simp add: resolve_def Let_def normalizeString_def pathOf_def components_def isAbsolute_def)
qed

lemma resolve_clean:
  assumes "isAbsolute cwd"
  obtains cs where "cleanSegs cs" and "resolve cwd p = pathOf cs"
  using resolve_eq [OF assms] components_clean by blast

lemma isAbsolute_pathOf: "isAbsolute (pathOf cs @ t)"
  by (simp add: isAbsolute_def pathOf_def)

lemma splitStr_slash_only: "splitStr ''/'' ''/'' = [[], []]"
  by (simp add: splitStr_slash_Cons splitStr_Nil)

lemma resolve_pathOf:
  assumes "cleanSegs cs" and "t = [] \<or> t = ''/''"
  shows "resolve cwd (pathOf cs @ t) = pathOf cs"
proof -
  have ne: "pathOf cs @ t \<noteq> []" by (simp add: pathOf_def)
  have abs: "isAbsolute (pathOf cs @ t)" by (rule isAbsolute_pathOf)
  have "normalizeSegments False [] (splitStr ''/'' ((pathOf cs @ t) @ ''/'')) = cs"
  proof (cases "cs = []")
    case True
    with assms(2) show ?thesis
      by (auto simp: pathOf_def splitStr_slash_Cons splitStr_Nil)
  next
    case False
    have "splitStr ''/'' (joinStr ''/'' cs @ CHR ''/'' # rest) = cs @ splitStr ''/'' rest" for rest
      using False assms(1) by (simp add: splitStr_joinStr_append cleanSegs_sep_free)
    with assms show ?thesis
      by (auto simp: pathOf_def splitStr_slash_Cons splitStr_Nil normalizeSegments_append
            normalizeSegments_id)
  qed
  with ne abs show ?thesis
    by (simp add: resolve_def Let_def normalizeString_def pathOf_def)
qed

lemma resolve_idem: "isAbsolute cwd \<Longrightarrow> resolve cwd (resolve cwd p) = resolve cwd p"
  by (metis resolve_clean resolve_pathOf append_Nil2)













lemma fs_warn [simp]: "fs (warn c m w) = fs w"
  by (simp add: warn_def)

lemma fs_info [simp]: "fs (info m w) = fs w"
  by (simp add: info_def)


lemma isAbsolute_resolve: "isAbsolute cwd \<Longrightarrow> isAbsolute (resolve cwd p)"
  by (metis resolve_clean isAbsolute_pathOf append_Nil2)



section \<open>Extraction stays within the output root\<close>

lemma isPathSafe_withinRoot:
  "isPathSafe cwd targetPath allowedRoot = withinRoot (resolve cwd allowedRoot) (resolve cwd targetPath)"
  by (auto simp: isPathSafe_def withinRoot_def Let_def)






section \<open>Archives without a password marker\<close>

lemma splitStr_no_occurrence:
  "sep \<noteq> [] \<Longrightarrow> \<not> includesStr s sep \<Longrightarrow> splitStr sep s = [s]"
proof (induction s)
  case Nil
  then show ?case by (simp add: splitStr.simps)
next
  case (Cons x xs)
  then show ?case
    by (subst splitStr.simps) simp
qed

lemma passwordMarker_nonempty: "passwordMarker \<noteq> []"
  by (simp add: passwordMarker_def)

lemma verifyArchivePassword_no_marker:
  "\<not> includesStr c passwordMarker \<Longrightarrow> verifyArchivePassword kdf pw c w = Inr w"
  by (simp add: verifyArchivePassword_def Let_def splitStr_no_occurrence passwordMarker_nonempty
           split: option.splits)

text \<open>
  Claim C10.  When the comment of the archive does not contain the marker, the password
  argument plays no part: whatever is supplied, \<^verbatim>\<open>unzip\<close> does what it does without a
  password, for any key derivation function (none is called); it fails neither with
  \<open>IncorrectPassword\<close> nor with \<open>PasswordRequired\<close>, and its result is that of reading
  the entries.
\<close>

theorem unzip_without_marker_ignores_password:
  assumes "\<not> includesStr (comment z) passwordMarker"
  shows "unzip kdf cwd (Archive z) zipPath outPath pw w
         = unzip kdf' cwd (Archive z) zipPath outPath None w
       \<and> fst (unzip kdf cwd (Archive z) zipPath outPath pw w) \<noteq> Inl IncorrectPassword
       \<and> fst (unzip kdf cwd (Archive z) zipPath outPath pw w) \<noteq> Inl PasswordRequired
       \<and> unzip kdf cwd (Archive z) zipPath outPath pw w
         = (case readEntries cwd (extractTarget cwd zipPath outPath) (events z) w of
              (Some err, w2) \<Rightarrow> (Inl err, w2)
            | (None, w2) \<Rightarrow> (Inr \<lparr>directory = extractTarget cwd zipPath outPath\<rparr>, w2))"
proof -
  have u: "unzip k cwd (Archive z) zipPath outPath pw w
         = (case readEntries cwd (extractTarget cwd zipPath outPath) (events z) w of
              (Some err, w2) \<Rightarrow> (Inl err, w2)
            | (None, w2) \<Rightarrow> (Inr \<lparr>directory = extractTarget cwd zipPath outPath\<rparr>, w2))" for k pw
    using assms
    by (simp add: unzip_def Let_def checkPasswordProtection_def verifyArchivePassword_no_marker)
  have ne: "fst (readEntries c x evs w1) \<noteq> Some IncorrectPassword
          \<and> fst (readEntries c x evs w1) \<noteq> Some PasswordRequired" for c x evs w1
  proof (induction c x evs w1 rule: readEntries.induct)
    case (3 cwd extractTo e rest w)
    then show ?case
      by (auto simp: Let_def split: sum.splits option.splits)
  qed simp_all
  show ?thesis
    unfolding u using ne [of cwd "extractTarget cwd zipPath outPath" "events z" w]
    by (auto split: prod.splits option.splits)
qed


theorem unzip_without_marker_ignores_password_witness:
  "unzip (\<lambda>p s n i. 0) ''/'' (Archive \<lparr>comment = ''nightly backup'',
       events = [Entry \<lparr>fileName = ''f.txt'', readStream = Some ''data''\<rparr>]\<rparr>)
     ''/a.zip'' (Some ''/out'') (Some ''wrong'') \<lparr>fs = \<lparr>dirs = [''/''], files = []\<rparr>, logged = []\<rparr>
   = (Inr \<lparr>directory = ''/out''\<rparr>,
      \<lparr>fs = \<lparr>dirs = [''/'', ''/out''], files = [(''/out/f.txt'', ''data'')]\<rparr>, logged = []\<rparr>)"
proof -
  let ?z = "\<lparr>comment = ''nightly backup'',
       events = [Entry \<lparr>fileName = ''f.txt'', readStream = Some ''data''\<rparr>]\<rparr>"
  have nm: "\<not> includesStr (comment ?z) passwordMarker" by code_simp
  have run: "unzip (\<lambda>p s n i. 0) ''/'' (Archive ?z) ''/a.zip'' (Some ''/out'') None
               \<lparr>fs = \<lparr>dirs = [''/''], files = []\<rparr>, logged = []\<rparr>
             = (Inr \<lparr>directory = ''/out''\<rparr>,
                \<lparr>fs = \<lparr>dirs = [''/'', ''/out''], files = [(''/out/f.txt'', ''data'')]\<rparr>, logged = []\<rparr>)"
    by code_simp
  from unzip_without_marker_ignores_password [OF nm, of "\<lambda>p s n i. 0" "''/''" "''/a.zip''" "Some ''/out''"
       "Some ''wrong''" "\<lparr>fs = \<lparr>dirs = [''/''], files = []\<rparr>, logged = []\<rparr>" "\<lambda>p s n i. 0"] run
  show ?thesis by simp
qed
section \<open>The password check\<close>

text \<open>
  The parts of the password check that hold.  A protected archive and no password (or the
  empty one): \<open>PasswordRequired\<close>, and nothing is read or written.
\<close>

lemma unzip_password_required:
  "checkPasswordProtection a \<Longrightarrow> \<not> truthy pw
   \<Longrightarrow> unzip kdf cwd a zipPath outPath pw w = (Inl PasswordRequired, w)"
  by (auto simp: unzip_def Let_def checkPasswordProtection_def split: archive.splits)

lemma splitStr_at_separator:
  "sep \<noteq> [] \<Longrightarrow> splitStr sep (sep @ s) = [] # splitStr sep s"
  by (subst splitStr.simps) (simp add: startsWith_def)

lemma includesStr_append_left: "includesStr s sep \<Longrightarrow> includesStr (p @ s) sep"
  by (induction p) auto

lemma includesStr_prefix: "includesStr (sep @ s) sep"
proof (cases "sep @ s")
  case Nil
  then show ?thesis by simp
next
  case (Cons a l)
  have "startsWith (sep @ s) sep" by (simp add: startsWith_def)
  with Cons show ?thesis by simp
qed

lemma splitStr_occurrence:
  "sep \<noteq> [] \<Longrightarrow> includesStr s sep \<Longrightarrow> 2 \<le> length (splitStr sep s)"
proof (induction s)
  case Nil
  then show ?case by simp
next
  case (Cons x xs)
  show ?case
  proof (cases "startsWith (x # xs) sep")
    case True
    with Cons.prems(1) have "splitStr sep (x # xs) = [] # splitStr sep (drop (length sep) (x # xs))"
      by (subst splitStr.simps) simp
    with splitStr_nonempty [OF Cons.prems(1), of "drop (length sep) (x # xs)"] show ?thesis
      by (cases "splitStr sep (drop (length sep) (x # xs))") auto
  next
    case False
    with Cons.prems have "includesStr xs sep" by simp
    with Cons have l: "2 \<le> length (splitStr sep xs)" by simp
    then obtain q qs where qq: "splitStr sep xs = q # qs" by (cases "splitStr sep xs") auto
    with False Cons.prems(1) have "splitStr sep (x # xs) = (x # q) # qs"
      by (subst splitStr.simps) simp
    with l qq show ?thesis by simp
  qed
qed

lemma verifyArchivePassword_one_marker:
  assumes "pw \<noteq> []" and "h \<noteq> []" and "\<not> includesStr h passwordMarker"
  shows "verifyArchivePassword kdf (Some pw) (passwordMarker @ h) w
         = (if verifyPassword kdf pw h then Inr (info ''Password verified'' w) else Inl IncorrectPassword)"
  using assms
  by (simp add: verifyArchivePassword_def Let_def splitStr_at_separator splitStr_no_occurrence
        passwordMarker_nonempty)

text \<open>
  A comment that is the marker followed by one non-empty credential: a password that does
  not verify gives \<open>IncorrectPassword\<close> with nothing read or written, and one that
  verifies lets the entries be read.
\<close>

lemma unzip_protected:
  assumes "comment z = passwordMarker @ h" and "pw \<noteq> []" and "h \<noteq> []"
    and "\<not> includesStr h passwordMarker"
  shows "unzip kdf cwd (Archive z) zipPath outPath (Some pw) w
         = (if verifyPassword kdf pw h
            then (case readEntries cwd (extractTarget cwd zipPath outPath) (events z)
                         (info ''Password verified'' w) of
                    (Some err, w2) \<Rightarrow> (Inl err, w2)
                  | (None, w2) \<Rightarrow> (Inr \<lparr>directory = extractTarget cwd zipPath outPath\<rparr>, w2))
            else (Inl IncorrectPassword, w))"
  using assms
  by (simp add: unzip_def Let_def truthy_def verifyArchivePassword_one_marker)

lemma includesStr_chars: "includesStr s sep \<Longrightarrow> set sep \<subseteq> set s"
proof (induction s)
  case Nil
  then show ?case by simp
next
  case (Cons x xs)
  show ?case
  proof (cases "startsWith (x # xs) sep")
    case True
    then have "sep = take (length sep) (x # xs)" by (simp add: startsWith_def)
    then have "set sep \<subseteq> set (x # xs)" by (metis set_take_subset)
    then show ?thesis .
  next
    case False
    with Cons show ?thesis by auto
  qed
qed

lemma generated_credential_no_marker:
  assumes "generatePasswordHash kdf rnd pw None n = Inr h"
  shows "h \<noteq> [] \<and> \<not> includesStr h passwordMarker"
proof -
  from assms have h: "h = algorithmTag @ ''$'' @ numToString n @ ''$'' @ toHex rnd @ ''$''
                          @ derivedDigest kdf pw (toHex rnd) n"
    by (simp add: generatePasswordHash_eq saltToUse_def split: if_splits)
  have "CHR '':'' \<notin> set h"
    unfolding h
    using set_natToString [of "nat n"] set_natToString [of "nat (- n)"] set_toHex [of rnd]
      set_toHex [of "map (kdf pw (toHex rnd) n) [0..<64]"]
    by (auto simp: algorithmTag_def numToString_def derivedDigest_def)
  moreover have "CHR '':'' \<in> set passwordMarker" by (simp add: passwordMarker_def)
  ultimately have "\<not> includesStr h passwordMarker" using includesStr_chars by blast
  moreover have "h \<noteq> []" unfolding h by (simp add: algorithmTag_def)
  ultimately show ?thesis by simp
qed

text \<open>
  The archives that \<^verbatim>\<open>zip\<close> itself writes with a password have such a comment.
\<close>

lemma zip_then_unzip_with_password:
  assumes z: "zipArchive kdf rnd encode createHash update digest elapsed cwd0 src sourcePath zipOut
                (Some pw) lvl alg = Inr (res, z)"
    and pw: "pw \<noteq> []" and q: "q \<noteq> []"
  shows "unzip kdf cwd (Archive z) zipPath outPath (Some q) w
         = (if derivedDigest kdf q (toHex rnd) 100000 = derivedDigest kdf pw (toHex rnd) 100000
            then (case readEntries cwd (extractTarget cwd zipPath outPath) (events z)
                         (info ''Password verified'' w) of
                    (Some err, w2) \<Rightarrow> (Inl err, w2)
                  | (None, w2) \<Rightarrow> (Inr \<lparr>directory = extractTarget cwd zipPath outPath\<rparr>, w2))
            else (Inl IncorrectPassword, w))"
proof -
  obtain h where g: "generatePasswordHash kdf rnd pw None 100000 = Inr h"
    by (auto simp: generatePasswordHash_eq)
  from z pw g have c: "comment z = passwordMarker @ h"
    by (auto simp: zipArchive_def archiveComment_def Let_def
             split: option.splits sum.splits if_splits prod.splits)
  have s: "saltToUse rnd None = toHex rnd" by (simp add: saltToUse_def)
  have n: "CHR ''$'' \<notin> set (saltToUse rnd None)" by (simp add: s dollar_notin_toHex)
  from credential_round_trip_general [OF _ _ n, of 100000 kdf pw] g
  have v: "verifyPassword kdf q h \<longleftrightarrow>
           derivedDigest kdf q (toHex rnd) 100000 = derivedDigest kdf pw (toHex rnd) 100000"
    by (simp add: s)
  from generated_credential_no_marker [OF g] have "h \<noteq> []" "\<not> includesStr h passwordMarker"
    by simp_all
  from unzip_protected [OF c q this] v show ?thesis by simp
qed
text \<open>
  Claim C2 fails on the code.  The presence check is \<^verbatim>\<open>comment.includes(marker)\<close>, but
  the credential is only verified when \<^verbatim>\<open>comment.split(marker)\<close> has exactly two parts
  and the second one is not empty.  An archive whose comment holds the marker, a credential
  and the marker again, and an archive whose comment is the marker alone, both count as
  protected (no password: \<open>PasswordRequired\<close>), and both are extracted with every
  non-empty password: no verification takes place, \<open>IncorrectPassword\<close> is never the
  result, and the entries are read and written.  In the second case the credential is
  empty, no password verifies against it, and the log says ``Password verified''.
\<close>

theorem unzip_skips_verification:
  assumes "pw \<noteq> []"
  shows "checkPasswordProtection (Archive \<lparr>comment = passwordMarker @ h @ passwordMarker, events = evs\<rparr>)
       \<and> unzip kdf cwd (Archive \<lparr>comment = passwordMarker @ h @ passwordMarker, events = evs\<rparr>)
            zipPath outPath (Some pw) w
         = (case readEntries cwd (extractTarget cwd zipPath outPath) evs w of
              (Some err, w2) \<Rightarrow> (Inl err, w2)
            | (None, w2) \<Rightarrow> (Inr \<lparr>directory = extractTarget cwd zipPath outPath\<rparr>, w2))
       \<and> checkPasswordProtection (Archive \<lparr>comment = passwordMarker, events = evs\<rparr>)
       \<and> \<not> verifyPassword kdf pw []
       \<and> unzip kdf cwd (Archive \<lparr>comment = passwordMarker, events = evs\<rparr>) zipPath outPath (Some pw) w
         = (case readEntries cwd (extractTarget cwd zipPath outPath) evs (info ''Password verified'' w) of
              (Some err, w2) \<Rightarrow> (Inl err, w2)
            | (None, w2) \<Rightarrow> (Inr \<lparr>directory = extractTarget cwd zipPath outPath\<rparr>, w2))"
proof -
  let ?c2 = "passwordMarker @ h @ passwordMarker"
  have i2: "includesStr ?c2 passwordMarker"
    using includesStr_prefix [of passwordMarker "h @ passwordMarker"] by simp
  have "includesStr (h @ passwordMarker) passwordMarker"
    using includesStr_append_left [OF includesStr_prefix [of passwordMarker "[]"], of h] by simp
  then have "2 \<le> length (splitStr passwordMarker (h @ passwordMarker))"
    using passwordMarker_nonempty by (simp add: splitStr_occurrence)
  then have l2: "length (splitStr passwordMarker ?c2) \<noteq> 2"
    by (simp add: splitStr_at_separator passwordMarker_nonempty)
  have v2: "verifyArchivePassword kdf (Some pw) ?c2 w = Inr w"
    using l2 by (simp add: verifyArchivePassword_def Let_def)
  have i1: "includesStr passwordMarker passwordMarker"
    using includesStr_prefix [of passwordMarker "[]"] by simp
  have s1: "splitStr passwordMarker passwordMarker = [[], []]"
    using splitStr_at_separator [OF passwordMarker_nonempty, of "[]"]
    by (simp add: splitStr.simps [of _ "[]"] passwordMarker_nonempty)
  have v1: "verifyArchivePassword kdf (Some pw) passwordMarker w = Inr (info ''Password verified'' w)"
    using assms by (simp add: verifyArchivePassword_def Let_def s1 passwordMarker_nonempty)
  have nv: "\<not> verifyPassword kdf pw []"
    unfolding verifyPassword_iff by (simp add: splitStr.simps [of _ "[]"])
  show ?thesis
    using assms i1 i2 v1 v2 nv
    by (simp add: unzip_def Let_def checkPasswordProtection_def truthy_def)
qed

theorem unzip_skips_verification_witness:
  "unzip (\<lambda>p s n i. 0) ''/'' (Archive \<lparr>comment = passwordMarker,
       events = [Entry \<lparr>fileName = ''secret.txt'', readStream = Some ''data''\<rparr>]\<rparr>)
     ''/a.zip'' (Some ''/out'') (Some ''wrong'') \<lparr>fs = \<lparr>dirs = [''/''], files = []\<rparr>, logged = []\<rparr>
   = (Inr \<lparr>directory = ''/out''\<rparr>,
      \<lparr>fs = \<lparr>dirs = [''/'', ''/out''], files = [(''/out/secret.txt'', ''data'')]\<rparr>,
       logged = [Info ''Password verified'']\<rparr>)"
proof -
  have ne: "''wrong'' \<noteq> []" by simp
  have run: "readEntries ''/'' (extractTarget ''/'' ''/a.zip'' (Some ''/out''))
               [Entry \<lparr>fileName = ''secret.txt'', readStream = Some ''data''\<rparr>]
               (info ''Password verified'' \<lparr>fs = \<lparr>dirs = [''/''], files = []\<rparr>, logged = []\<rparr>)
             = (None, \<lparr>fs = \<lparr>dirs = [''/'', ''/out''], files = [(''/out/secret.txt'', ''data'')]\<rparr>,
                       logged = [Info ''Password verified'']\<rparr>)"
    by code_simp
  have x: "extractTarget ''/'' ''/a.zip'' (Some ''/out'') = ''/out''" by code_simp
  let ?E = "[Entry \<lparr>fileName = ''secret.txt'', readStream = Some ''data''\<rparr>]"
  let ?W = "\<lparr>fs = \<lparr>dirs = [''/''], files = []\<rparr>, logged = []\<rparr>"
  have u: "unzip (\<lambda>p s n i. 0) ''/'' (Archive \<lparr>comment = passwordMarker, events = ?E\<rparr>)
             ''/a.zip'' (Some ''/out'') (Some ''wrong'') ?W
           = (case readEntries ''/'' (extractTarget ''/'' ''/a.zip'' (Some ''/out'')) ?E
                     (info ''Password verified'' ?W) of
                (Some err, w2) \<Rightarrow> (Inl err, w2)
              | (None, w2) \<Rightarrow> (Inr \<lparr>directory = extractTarget ''/'' ''/a.zip'' (Some ''/out'')\<rparr>, w2))"
    using unzip_skips_verification [OF ne, of "[]" ?E "\<lambda>p s n i. 0" "''/''" "''/a.zip''" "Some ''/out''" ?W]
    by blast
  show ?thesis
    unfolding u run by (simp add: x)
qed



section \<open>Entry names with control characters\<close>

lemma join_pathOf_name:
  assumes "cleanSegs rc" and "cleanSegs [name]"
  shows "join (pathOf rc) name = pathOf (rc @ [name])"
proof -
  from assms(2) have n0: "name \<noteq> []" "CHR ''/'' \<notin> set name"
    by (auto simp: cleanSegs_Cons)
  then have n: "name \<noteq> []" "CHR ''/'' \<notin> set name" "last name \<noteq> CHR ''/''"
    by (metis, metis, metis last_in_set)
  let ?J = "pathOf rc @ ''/'' @ name"
  have J: "join (pathOf rc) name = normalizePath ?J"
    using n(1) by (simp add: join_def Let_def pathOf_def)
  have sp: "splitStr ''/'' ?J = [] # (if rc = [] then [[]] else rc) @ [name]"
  proof (cases "rc = []")
    case True
    then show ?thesis
      using n(2) by (simp add: pathOf_def splitStr_slash_Cons splitStr_single_nosep)
  next
    case False
    then show ?thesis
      using assms(1) n(2)
      by (simp add: pathOf_def splitStr_slash_Cons splitStr_joinStr_append cleanSegs_sep_free
            splitStr_single_nosep)
  qed
  have c: "components ?J = rc @ [name]"
    unfolding components_def sp using assms
    by (auto simp: normalizeSegments_append normalizeSegments_id cleanSegs_Cons)
  have ne: "joinStr ''/'' (rc @ [name]) \<noteq> []"
    using assms by (simp add: joinStr_clean_nonempty)
  show ?thesis
    unfolding J using c ne n
    by (simp add: normalizePath_def Let_def normalizeString_def components_def [symmetric] pathOf_def)
qed

lemma isPathSafe_plain_name:
  assumes "cleanSegs rc" and "rc \<noteq> []" and "cleanSegs [name]"
  shows "isPathSafe cwd (join (pathOf rc) name) (pathOf rc)"
    and "resolve cwd (join (pathOf rc) name) = pathOf rc @ ''/'' @ name"
proof -
  have c: "cleanSegs (rc @ [name])" using assms by simp
  have T: "resolve cwd (join (pathOf rc) name) = pathOf (rc @ [name])"
    unfolding join_pathOf_name [OF assms(1,3)]
    using resolve_pathOf [OF c, of "[]" cwd] by simp
  have R: "resolve cwd (pathOf rc) = pathOf rc"
    using resolve_pathOf [OF assms(1), of "[]" cwd] by simp
  have w: "withinRoot (pathOf rc) (pathOf (rc @ [name]))"
    by (rule prefix_withinRoot [OF assms(2)]) simp
  show "isPathSafe cwd (join (pathOf rc) name) (pathOf rc)"
    unfolding isPathSafe_withinRoot T R by (rule w)
  show "resolve cwd (join (pathOf rc) name) = pathOf rc @ ''/'' @ name"
    unfolding T using assms(2) by (simp add: pathOf_def joinStr_append)
qed

text \<open>
  The validator of \<^verbatim>\<open>SecurityUtils\<close> rejects every name that holds a control character,
  but it accepts names that traverse upwards or are absolute.
\<close>

lemma validateFilename_rejects_control_characters:
  assumes "c \<in> set filename" and "of_char c \<le> (31 :: nat) \<or> of_char c = (127 :: nat)"
  shows "\<not> validateFilename filename"
proof -
  from assms(2) have "dangerousCharacter c" by (auto simp: dangerousCharacter_def Let_def)
  with assms(1) have "\<not> list_all (\<lambda>c. \<not> dangerousCharacter c) filename"
    by (auto simp: list_all_iff)
  then show ?thesis by (simp add: validateFilename_def)
qed

lemma validateFilename_line_feed: "\<not> validateFilename [CHR ''a'', CHR 0x0A, CHR ''b'']"
  by (rule validateFilename_rejects_control_characters [of "CHR 0x0A"]) simp_all

lemma validateFilename_accepts_traversal:
  "validateFilename ''../../etc/passwd''" "validateFilename ''/etc/passwd''"
  by code_simp+

text \<open>
  Claim C7 fails on the code.  \<^verbatim>\<open>isPathSafe\<close>, the only check that \<^verbatim>\<open>unzip\<close> makes
  on an entry, compares resolved paths and looks at no character but the separator.  For
  every output root other than \<open>/\<close> and every entry name that is not empty, is not \<open>.\<close>
  or \<open>..\<close> and contains no \<open>/\<close> (control characters or not), the check accepts the
  entry and the target is the root, a separator and the name unchanged.
\<close>

theorem isPathSafe_accepts_control_characters:
  assumes "isAbsolute cwd" and "outRoot = resolve cwd out" and "outRoot \<noteq> ''/''"
    and "name \<noteq> []" and "name \<noteq> ''.''" and "name \<noteq> ''..''" and "CHR ''/'' \<notin> set name"
  shows "isPathSafe cwd (join outRoot name) outRoot
       \<and> resolve cwd (join outRoot name) = outRoot @ ''/'' @ name"
proof -
  obtain rc where rc: "cleanSegs rc" "outRoot = pathOf rc"
    using resolve_clean [OF assms(1)] assms(2) by metis
  with assms(3) have ne: "rc \<noteq> []" by (auto simp: pathOf_def)
  have n: "cleanSegs [name]" using assms(4-7) by (simp add: cleanSegs_Cons)
  from isPathSafe_plain_name [OF rc(1) ne n, of cwd] rc(2) show ?thesis by simp
qed

text \<open>An entry whose name holds a line feed is written under that name.\<close>

lemma control_character_entry_written:
  "readEntries ''/'' ''/out'' [Entry \<lparr>fileName = [CHR ''a'', CHR 0x0A, CHR ''b''], readStream = Some ''data''\<rparr>]
     \<lparr>fs = \<lparr>dirs = [''/'', ''/out''], files = []\<rparr>, logged = []\<rparr>
   = (None, \<lparr>fs = \<lparr>dirs = [''/'', ''/out''], files = [([CHR ''/'', CHR ''o'', CHR ''u'', CHR ''t'', CHR ''/'', CHR ''a'', CHR 0x0A, CHR ''b''], ''data'')]\<rparr>,
             logged = []\<rparr>)"
  by code_simp

theorem isPathSafe_accepts_control_characters_witness:
  "isPathSafe ''/'' (join ''/out'' [CHR ''a'', CHR 0x0A, CHR ''b'']) ''/out''
   \<and> isPathSafe ''/'' (join ''/out'' [CHR ''a'', CHR 0x00, CHR ''b'', CHR 0x7F]) ''/out''"
proof -
  have abs: "isAbsolute ''/''" by (simp add: isAbsolute_def)
  have r: "''/out'' = resolve ''/'' ''/out''" by code_simp
  have ne: "''/out'' \<noteq> ''/''" by simp
  from isPathSafe_accepts_control_characters [OF abs r ne, of "[CHR ''a'', CHR 0x0A, CHR ''b'']"]
       isPathSafe_accepts_control_characters [OF abs r ne, of "[CHR ''a'', CHR 0x00, CHR ''b'', CHR 0x7F]"]
  show ?thesis by simp
qed
section \<open>Round trip\<close>

lemma components_rel:
  assumes "cleanSegs segs" and "t = [] \<or> t = ''/''"
  shows "normalizeSegments False res (splitStr ''/'' (joinStr ''/'' segs @ t)) = res @ segs"
proof (cases "segs = []")
  case True
  with assms(2) show ?thesis
    by (auto simp: splitStr_Nil splitStr_slash_Cons)
next
  case False
  have f: "\<forall>s \<in> set segs. CHR ''/'' \<notin> set s" using assms(1) by (rule cleanSegs_sep_free)
  from assms(2) show ?thesis
  proof
    assume "t = []"
    then show ?thesis
      using False f assms(1) by (simp add: splitStr_joinStr normalizeSegments_id)
  next
    assume "t = ''/''"
    then show ?thesis
      using False f assms(1)
      by (simp add: splitStr_joinStr_append splitStr_Nil normalizeSegments_append normalizeSegments_id)
  qed
qed

lemma resolve_join_rel:
  assumes "cleanSegs rc" and "cleanSegs segs" and "segs \<noteq> []" and "t = [] \<or> t = ''/''"
  shows "resolve cwd (join (pathOf rc) (joinStr ''/'' segs @ t)) = pathOf (rc @ segs)"
proof -
  let ?b = "joinStr ''/'' segs @ t"
  have bne: "?b \<noteq> []" using assms(2,3) by (simp add: joinStr_clean_nonempty)
  let ?J = "pathOf rc @ ''/'' @ ?b"
  have "pathOf rc \<noteq> []" by (simp add: pathOf_def)
  with bne have J: "join (pathOf rc) ?b = normalizePath ?J"
    unfolding join_def Let_def by (simp only: if_False append_is_Nil_conv) simp
  have abs: "isAbsolute ?J" by (simp add: isAbsolute_def pathOf_def)
  have sp: "splitStr ''/'' ?J = [] # (if rc = [] then [[]] else rc) @ splitStr ''/'' ?b"
  proof (cases "rc = []")
    case True
    then show ?thesis by (simp add: pathOf_def splitStr_slash_Cons)
  next
    case False
    then show ?thesis
      using assms(1)
      by (simp add: pathOf_def splitStr_slash_Cons splitStr_joinStr_append cleanSegs_sep_free)
  qed
  have c: "components ?J = rc @ segs"
    unfolding components_def sp
    using assms(1) components_rel [OF assms(2,4), of rc]
    by (auto simp: normalizeSegments_append normalizeSegments_id)
  obtain cs t' where n: "cleanSegs cs" "t' = [] \<or> t' = ''/''" "normalizePath ?J = pathOf cs @ t'"
    and cs: "cs = components ?J"
  proof -
    have cl: "cleanSegs (components ?J)" by (rule components_clean)
    have ne: "joinStr ''/'' (components ?J) \<noteq> []"
      unfolding c using assms by (simp add: joinStr_clean_nonempty)
    have "normalizePath ?J = pathOf (components ?J) @ (if last ?J = CHR ''/'' then ''/'' else [])"
      using ne by (simp add: normalizePath_def Let_def normalizeString_def components_def pathOf_def)
    with cl that [of "components ?J" "if last ?J = CHR ''/'' then ''/'' else []"] show ?thesis by simp
  qed
  show ?thesis
    unfolding J n(3) using resolve_pathOf [OF n(1,2), of cwd] cs c by simp
qed

lemma entriesOf_names:
  assumes "ordinaryNames tree" and "cleanSegs segs" and "segs \<noteq> []"
    and "e \<in> set (entriesOf (joinStr ''/'' segs) tree)"
  shows "\<exists>segs' t. cleanSegs segs' \<and> prefix segs segs' \<and> (t = [] \<or> t = ''/'')
            \<and> fileName e = joinStr ''/'' segs' @ t"
  using assms
proof (induction tree arbitrary: segs e)
  case (File content)
  then have "fileName e = joinStr ''/'' segs @ []" by simp
  with File.prems show ?case by blast
next
  case (Directory items)
  from Directory.prems(4) consider
      (self) "e = \<lparr>fileName = joinStr ''/'' segs @ ''/'', readStream = None\<rparr>"
    | (below) item where "item \<in> set items"
        "e \<in> set (entriesOf (joinStr ''/'' segs @ ''/'' @ fst item) (snd item))"
    by auto
  then show ?case
  proof cases
    case self
    then have "fileName e = joinStr ''/'' segs @ ''/''" by simp
    with Directory.prems show ?thesis by blast
  next
    case below
    from Directory.prems(1) below(1) have n: "cleanSegs [fst item]" and o: "ordinaryNames (snd item)"
      by (simp_all add: list_all_iff)
    have j: "joinStr ''/'' segs @ ''/'' @ fst item = joinStr ''/'' (segs @ [fst item])"
      using Directory.prems(3) by (simp add: joinStr_append)
    have cl: "cleanSegs (segs @ [fst item])" using Directory.prems(2) n by simp
    have "snd item \<in> Basic_BNFs.snds item" by (cases item) simp
    from Directory.IH [OF below(1) this o cl _ below(2) [unfolded j]]
    obtain segs' t where "cleanSegs segs'" "prefix (segs @ [fst item]) segs'" "t = [] \<or> t = ''/''"
      "fileName e = joinStr ''/'' segs' @ t" by auto
    moreover from this(2) have "prefix segs segs'" by (metis append_prefixD)
    ultimately show ?thesis by blast
  qed
qed

lemma isPathSafe_filesystem_root:
  assumes "isAbsolute cwd"
  shows "isPathSafe cwd p ''/'' \<longleftrightarrow> resolve cwd p = ''/''"
proof -
  obtain cs where cs: "cleanSegs cs" "resolve cwd p = pathOf cs"
    using resolve_clean [OF assms] by metis
  have R: "resolve cwd ''/'' = pathOf []"
    using resolve_pathOf [of "[]" "[]" cwd] by (simp add: pathOf_def)
  show ?thesis
  proof
    assume "isPathSafe cwd p ''/''"
    then have "withinRoot (pathOf []) (pathOf cs)"
      by (simp add: isPathSafe_withinRoot R cs)
    from withinRoot_prefix [OF _ cs(1) this] have "cs = []" by simp
    with cs show "resolve cwd p = ''/''" by (simp add: pathOf_def)
  next
    assume "resolve cwd p = ''/''"
    then show "isPathSafe cwd p ''/''"
      by (simp add: isPathSafe_withinRoot R withinRoot_def pathOf_def)
  qed
qed

lemma readEntries_all_unsafe:
  assumes "\<forall>e \<in> set es. \<not> isPathSafe cwd (join extractTo (fileName e)) extractTo"
  shows "readEntries cwd extractTo (map Entry es) w
         = (None, w\<lparr>logged := logged w @ map (\<lambda>e. Warn 103 (''Skipping unsafe path: '' @ fileName e)) es\<rparr>)"
  using assms
proof (induction es arbitrary: w)
  case Nil
  then show ?case by simp
next
  case (Cons e es)
  then show ?case by (simp add: Let_def warn_def)
qed


lemma basename_pathOf:
  assumes "cleanSegs cs" and "cs \<noteq> []"
  shows "basename (pathOf cs) = last cs"
proof -
  from assms(2) obtain init l where cs: "cs = init @ [l]" by (metis append_butlast_last_id)
  from assms(1) cs have l: "l \<noteq> []" "CHR ''/'' \<notin> set l" by (simp_all add: cleanSegs_Cons)
  have "\<exists>pre. pathOf cs = pre @ CHR ''/'' # l"
  proof (cases "init = []")
    case True
    with cs show ?thesis by (simp add: pathOf_def)
  next
    case False
    with cs have "pathOf cs = (CHR ''/'' # joinStr ''/'' init) @ CHR ''/'' # l"
      by (simp add: pathOf_def joinStr_append)
    then show ?thesis by blast
  qed
  then obtain pre where p: "pathOf cs = pre @ CHR ''/'' # l" by blast
  have r: "rev (pathOf cs) = rev l @ CHR ''/'' # rev pre" by (simp add: p)
  from l have h: "hd (rev l) \<noteq> CHR ''/''" "rev l \<noteq> []"
    by (metis hd_rev last_in_set, simp)
  have d: "dropWhile (\<lambda>c. c = CHR ''/'') (rev l @ CHR ''/'' # rev pre) = rev l @ CHR ''/'' # rev pre"
    using h by (cases "rev l") auto
  have t: "takeWhile (\<lambda>c. c \<noteq> CHR ''/'') (rev l @ CHR ''/'' # rev pre) = rev l"
    using l(2) by (auto simp: takeWhile_tail)
  show ?thesis
    unfolding basename_def r d t using cs by simp
qed

lemma zipArchive_plain:
  "zipArchive kdf rnd encode createHash update digest elapsed cwd (Some (Directory items)) sourcePath zipOut
       None lvl None = Inr (res, z)
   \<Longrightarrow> z = \<lparr>comment = [], events = map Entry (archiveDirectory items (basename (resolve cwd sourcePath)))\<rparr>"
  by (auto simp: zipArchive_def Let_def archiveComment_def)

lemma archiveDirectory_names:
  assumes "ordinaryNames (Directory items)" and "cleanSegs [base]"
    and "e \<in> set (archiveDirectory items base)"
  shows "\<exists>segs t. cleanSegs segs \<and> segs \<noteq> [] \<and> (t = [] \<or> t = ''/'') \<and> fileName e = joinStr ''/'' segs @ t"
proof -
  from assms(3) obtain item where i: "item \<in> set items"
    "e \<in> set (entriesOf (base @ ''/'' @ fst item) (snd item))"
    by (auto simp: archiveDirectory_def)
  from assms(1) i(1) have n: "cleanSegs [fst item]" and o: "ordinaryNames (snd item)"
    by (simp_all add: list_all_iff)
  have j: "base @ ''/'' @ fst item = joinStr ''/'' [base, fst item]" by simp
  have cl: "cleanSegs [base, fst item]" using assms(2) n by (simp add: cleanSegs_Cons)
  from entriesOf_names [OF o cl _ i(2) [unfolded j]]
  obtain segs' t where "cleanSegs segs'" "prefix [base, fst item] segs'" "t = [] \<or> t = ''/''"
      "fileName e = joinStr ''/'' segs' @ t" by auto
  moreover from this(2) have "segs' \<noteq> []" by auto
  ultimately show ?thesis by blast
qed

text \<open>
  Claim C4 fails on the code when the output root is the root of the filesystem.
  \<^verbatim>\<open>isPathSafe\<close> tests \<^verbatim>\<open>resolvedTarget.startsWith(resolvedRoot + path.sep)\<close>; for the
  root \<open>/\<close> the prefix is \<open>//\<close>, which no resolved path starts with.  So for every
  directory tree with ordinary names (not at \<open>/\<close> itself) and every compression level,
  extracting the archive that \<^verbatim>\<open>zip\<close> made of it into \<open>/\<close> (for instance an archive
  \<^verbatim>\<open>/d.zip\<close> extracted without an output directory) skips every entry: the result is
  a success, the filesystem is unchanged, and each entry is logged as an unsafe path.
\<close>

theorem extraction_into_filesystem_root_restores_nothing:
  assumes cwd: "isAbsolute cwd" and cwd': "isAbsolute cwd'"
    and names: "ordinaryNames (Directory items)"
    and src: "resolve cwd sourcePath \<noteq> ''/''"
    and zip: "zipArchive kdf rnd encode createHash update digest elapsed cwd
                (Some (Directory items)) sourcePath zipOut None lvl None = Inr (res, z)"
    and target: "extractTarget cwd' zipPath outPath = ''/''"
  shows "unzip kdf' cwd' (Archive z) zipPath outPath pw w
         = (Inr \<lparr>directory = ''/''\<rparr>,
            w\<lparr>logged := logged w @ map (\<lambda>e. Warn 103 (''Skipping unsafe path: '' @ fileName e))
                                      (archiveDirectory items (basename (resolve cwd sourcePath)))\<rparr>)"
proof -
  let ?base = "basename (resolve cwd sourcePath)"
  let ?es = "archiveDirectory items ?base"
  from zipArchive_plain [OF zip] have z: "z = \<lparr>comment = [], events = map Entry ?es\<rparr>" .
  obtain cs where cs: "cleanSegs cs" "resolve cwd sourcePath = pathOf cs"
    using resolve_clean [OF cwd] by metis
  with src have ne: "cs \<noteq> []" by (auto simp: pathOf_def)
  have base: "cleanSegs [?base]"
    unfolding cs(2) basename_pathOf [OF cs(1) ne] using cs(1) ne
    by (metis cleanSegs_append append_butlast_last_id)
  have unsafe: "\<not> isPathSafe cwd' (join ''/'' (fileName e)) ''/''" if "e \<in> set ?es" for e
  proof -
    from archiveDirectory_names [OF names base that]
    obtain segs t where s: "cleanSegs segs" "segs \<noteq> []" "t = [] \<or> t = ''/''"
      "fileName e = joinStr ''/'' segs @ t" by blast
    have "resolve cwd' (join (pathOf []) (fileName e)) = pathOf ([] @ segs)"
      unfolding s(4) by (rule resolve_join_rel [OF _ s(1,2,3)]) simp
    then have "resolve cwd' (join ''/'' (fileName e)) = pathOf segs" by (simp add: pathOf_def)
    moreover have "pathOf segs \<noteq> ''/''"
      using s(1,2) by (simp add: pathOf_def joinStr_clean_nonempty)
    ultimately show ?thesis by (simp add: isPathSafe_filesystem_root [OF cwd'])
  qed
  have nm: "\<not> includesStr [] passwordMarker" by (simp add: passwordMarker_def)
  have "unzip kdf' cwd' (Archive z) zipPath outPath pw w
        = (case readEntries cwd' ''/'' (map Entry ?es) w of
             (Some err, w2) \<Rightarrow> (Inl err, w2)
           | (None, w2) \<Rightarrow> (Inr \<lparr>directory = ''/''\<rparr>, w2))"
    using nm by (simp add: z unzip_def Let_def checkPasswordProtection_def
                   verifyArchivePassword_no_marker target)
  also have "readEntries cwd' ''/'' (map Entry ?es) w
        = (None, w\<lparr>logged := logged w @ map (\<lambda>e. Warn 103 (''Skipping unsafe path: '' @ fileName e)) ?es\<rparr>)"
    by (rule readEntries_all_unsafe) (use unsafe in blast)
  finally show ?thesis by simp
qed

text \<open>
  The tree of one 10-byte file and one empty directory, extracted into \<^verbatim>\<open>/out\<close>, is
  reproduced; extracted into \<open>/\<close>, nothing is.
\<close>

lemma round_trip_example:
  "unzip kdf ''/'' (Archive \<lparr>comment = [],
        events = map Entry (archiveDirectory [(''f.txt'', File ''0123456789''), (''e'', Directory [])] ''d'')\<rparr>)
     ''/d.zip'' (Some ''/out'') None \<lparr>fs = \<lparr>dirs = [''/''], files = []\<rparr>, logged = []\<rparr>
   = (Inr \<lparr>directory = ''/out''\<rparr>,
      \<lparr>fs = \<lparr>dirs = [''/'', ''/out'', ''/out/d'', ''/out/d/e''], files = [(''/out/d/f.txt'', ''0123456789'')]\<rparr>,
       logged = []\<rparr>)"
  by code_simp

theorem extraction_into_filesystem_root_restores_nothing_witness:
  "unzip (\<lambda>p s n i. 0) ''/''
     (Archive \<lparr>comment = [],
        events = map Entry (archiveDirectory [(''f.txt'', File ''0123456789''), (''e'', Directory [])] ''d'')\<rparr>)
     ''/d.zip'' None None \<lparr>fs = \<lparr>dirs = [''/''], files = []\<rparr>, logged = []\<rparr>
   = (Inr \<lparr>directory = ''/''\<rparr>,
      \<lparr>fs = \<lparr>dirs = [''/''], files = []\<rparr>,
       logged = [Warn 103 ''Skipping unsafe path: d/f.txt'', Warn 103 ''Skipping unsafe path: d/e/'']\<rparr>)"
proof -
  let ?items = "[(''f.txt'', File ''0123456789''), (''e'', Directory [])]"
  let ?enc = "\<lambda>(l::nat) (z::zipfile). replicate 200 (CHR ''z'')"
  let ?z = "\<lparr>comment = [], events = map Entry (archiveDirectory ?items ''d'')\<rparr>"
  have abs: "isAbsolute ''/home/u''" "isAbsolute ''/''" by (simp_all add: isAbsolute_def)
  have names: "ordinaryNames (Directory ?items)" by (simp add: cleanSegs_Cons)
  have r: "resolve ''/home/u'' ''d'' = ''/home/u/d''" by code_simp
  have b: "basename ''/home/u/d'' = ''d''" by code_simp
  have src: "resolve ''/home/u'' ''d'' \<noteq> ''/''" by (simp add: r)
  have t: "extractTarget ''/'' ''/d.zip'' None = ''/''" by code_simp
  obtain res z where zip: "zipArchive (\<lambda>p s n i. 0) [] ?enc (\<lambda>a. Some ()) (\<lambda>h c. h) (\<lambda>h. []) 0 ''/home/u''
          (Some (Directory ?items)) ''d'' ''/d.zip'' None None None = Inr (res, z)"
    by (auto simp: zipArchive_def Let_def archiveComment_def)
  from zipArchive_plain [OF zip] have z: "z = ?z" by (simp add: r b)
  from extraction_into_filesystem_root_restores_nothing [OF abs names src zip t,
         of "\<lambda>p s n i. 0" None "\<lparr>fs = \<lparr>dirs = [''/''], files = []\<rparr>, logged = []\<rparr>"]
  show ?thesis
    unfolding z r b by (simp add: archiveDirectory_def)
qed
section \<open>Progress reports of the file hash\<close>









lemma fold_onData_silent:
  "\<not> (cb \<and> 0 < tot) \<Longrightarrow> reported (fold (onData update cb tot) chunks st) = reported st"
  by (induction chunks arbitrary: st) (simp_all add: onData_def Let_def)



lemma generateFileHash_without_callback:
  "generateFileHash createHash update digest elapsed file filePath alg False = Inr (result, reports)
   \<Longrightarrow> reports = []"
  by (auto simp: generateFileHash_def Let_def fold_onData_silent split: option.splits)




section \<open>The compression ratio of a created archive\<close>








end
